theory Spec2Isabelle
  imports Main "HOL-Library.Word"
begin

section \<open>The synchronous scope factory\<close>

text \<open>
  Source: \<^verbatim>\<open>src/graphlab/scope/synchronous_scope_factory.hpp\<close>.

  A \<^verbatim>\<open>Graph*\<close> is the address of a graph owned by the caller; the factory only stores
  and exchanges such addresses, so an address is a natural number. A vertex id is a
  number as well (no arithmetic is done on it here).
\<close>

type_synonym graph_ptr = nat
type_synonym vertex_id_t = nat

text \<open>
  Modelled from the spec: \<^verbatim>\<open>synchronous_scope\<close> (\<^verbatim>\<open>synchronous_scope.hpp\<close> is not part of
  the sources at hand). A scope, once bound by \<^verbatim>\<open>init\<close>, holds non-owning references to
  the source graph, the dest graph and the vertex-data graph, and the target vertex id.
  A slot of the pool that was never bound is \<open>None\<close>.
\<close>

record synchronous_scope =
  scope_src :: graph_ptr
  scope_dest :: graph_ptr
  scope_vdata :: graph_ptr
  scope_vertex :: vertex_id_t

definition scope_init ::
  "graph_ptr \<Rightarrow> graph_ptr \<Rightarrow> graph_ptr \<Rightarrow> vertex_id_t \<Rightarrow> synchronous_scope option" where
  "scope_init s d vd v =
     Some \<lparr>scope_src = s, scope_dest = d, scope_vdata = vd, scope_vertex = v\<rparr>"

text \<open>The private members of the class, lines 62 to 65.\<close>

record synchronous_scope_factory =
  srcgraph :: graph_ptr
  destgraph :: graph_ptr
  vertexdatagraph :: graph_ptr
  scopes :: "synchronous_scope option list"

datatype error = Assertion_failed

text \<open>
  The constructor, lines 22 to 30. The base class constructor keeps no state of this
  class. \<^verbatim>\<open>scopes(ncpus)\<close> allocates \<open>ncpus\<close> unbound slots.
\<close>

definition new_factory :: "graph_ptr \<Rightarrow> graph_ptr \<Rightarrow> nat \<Rightarrow> synchronous_scope_factory" where
  "new_factory src_g dest_g ncpus =
     \<lparr>srcgraph = src_g, destgraph = dest_g, vertexdatagraph = dest_g,
      scopes = replicate ncpus None\<rparr>"

text \<open>Line 34: the body is empty.\<close>

definition set_default_scope :: "'r \<Rightarrow> synchronous_scope_factory \<Rightarrow> synchronous_scope_factory" where
  "set_default_scope default_scope_range f = f"

text \<open>
  Lines 36 to 43. The returned pointer \<^verbatim>\<open>&scopes[cpuid]\<close> is the slot index \<open>cpuid\<close>:
  the vector is never resized, so the index identifies the pooled object. The failing
  \<^verbatim>\<open>assert\<close> aborts the process: \<open>Inl Assertion_failed\<close>. The scope range is of a type
  that is not part of the sources at hand; it is a parameter, and the body ignores it.
\<close>

definition get_scope ::
  "nat \<Rightarrow> vertex_id_t \<Rightarrow> 'r \<Rightarrow> synchronous_scope_factory
     \<Rightarrow> error + (synchronous_scope_factory \<times> nat)" where
  "get_scope cpuid v scope_range f =
     (if \<not> cpuid < length (scopes f) then Inl Assertion_failed
      else Inr (f\<lparr>scopes := (scopes f)
                   [cpuid := scope_init (srcgraph f) (destgraph f) (vertexdatagraph f) v]\<rparr>,
                cpuid))"

text \<open>Lines 45 to 49.\<close>

definition swap_graphs :: "synchronous_scope_factory \<Rightarrow> synchronous_scope_factory" where
  "swap_graphs f =
     (let tmp = srcgraph f;
          f1 = f\<lparr>srcgraph := destgraph f\<rparr>
      in f1\<lparr>destgraph := tmp\<rparr>)"

text \<open>Lines 51 to 53.\<close>

definition get_src_graph :: "synchronous_scope_factory \<Rightarrow> graph_ptr" where
  "get_src_graph f = srcgraph f"

definition get_dest_graph :: "synchronous_scope_factory \<Rightarrow> graph_ptr" where
  "get_dest_graph f = destgraph f"

definition get_vertex_data_graph :: "synchronous_scope_factory \<Rightarrow> graph_ptr" where
  "get_vertex_data_graph f = vertexdatagraph f"

text \<open>Line 55: the body is empty.\<close>

definition release_scope :: "nat \<Rightarrow> synchronous_scope_factory \<Rightarrow> synchronous_scope_factory" where
  "release_scope scope f = f"

text \<open>
  A call of one of the state-changing or empty-bodied member functions, and a sequence
  of calls on one factory. A failed assertion ends the run.
\<close>

datatype 'r factory_call =
  Get_scope nat vertex_id_t 'r
  | Swap_graphs
  | Set_default_scope 'r
  | Release_scope nat

fun do_call ::
  "'r factory_call \<Rightarrow> synchronous_scope_factory \<Rightarrow> error + synchronous_scope_factory" where
  "do_call (Get_scope cpuid v r) f =
     (case get_scope cpuid v r f of Inl e \<Rightarrow> Inl e | Inr (f', p) \<Rightarrow> Inr f')"
| "do_call Swap_graphs f = Inr (swap_graphs f)"
| "do_call (Set_default_scope r) f = Inr (set_default_scope r f)"
| "do_call (Release_scope p) f = Inr (release_scope p f)"

fun do_calls ::
  "'r factory_call list \<Rightarrow> synchronous_scope_factory \<Rightarrow> error + synchronous_scope_factory" where
  "do_calls [] f = Inr f"
| "do_calls (c # cs) f =
     (case do_call c f of Inl e \<Rightarrow> Inl e | Inr f' \<Rightarrow> do_calls cs f')"

section \<open>The shared termination detector\<close>

text \<open>
  Source: \<^verbatim>\<open>src/graphlab/util/shared_termination.hpp\<close>.

  \<^verbatim>\<open>size_t\<close> is a 64-bit unsigned integer: \<^verbatim>\<open>numactive--\<close> and \<^verbatim>\<open>numactive++\<close> wrap
  around. \<^verbatim>\<open>std::vector<char>\<close> is a list of bytes.

  Modelled from the spec: the mutex, the condition variable and the atomic counter
  (\<^verbatim>\<open>pthread_tools.hpp\<close> and \<^verbatim>\<open>atomic.hpp\<close> are not part of the sources at hand), with
  lock/unlock, wait/broadcast and fetch-add/fetch-sub semantics. The mutex \<open>m\<close> is the
  id of the worker that holds it, or \<open>None\<close> when it is free. The atomic counter is its
  value. The condition variable has no field of its own: the workers blocked on it are
  those whose sequence point is \<open>Parked\<close>.
\<close>

type_synonym size_t = "64 word"

record shared_termination =
  numactive :: size_t
  numcpus :: size_t
  trying_to_sleep :: size_t
  sleeping :: "8 word list"
  "done" :: bool
  m :: "nat option"

text \<open>
  The functions of the class are called by several threads at once, so the model is a
  transition system. One logical worker id belongs to one thread; worker \<open>t\<close> passes
  \<open>cpuid = t\<close>. A sequence point says where the worker stands in the function it is
  executing; the number in a name is the source line that the worker executes next.
  \<^item> \<open>Active\<close>: outside the three functions of the sleep protocol.
  \<^item> \<open>Begin_41\<close>, \<open>Begin_42\<close>: inside \<^verbatim>\<open>begin_sleep_critical_section\<close>.
  \<^item> \<open>Critical\<close>: \<^verbatim>\<open>begin_sleep_critical_section\<close> has returned; the worker holds the
    mutex and inspects the queue. It calls \<^verbatim>\<open>cancel_sleep_critical_section\<close> or
    \<^verbatim>\<open>end_sleep_critical_section\<close> next.
  \<^item> \<open>Cancel_47\<close>, \<open>Cancel_48\<close>: inside \<^verbatim>\<open>cancel_sleep_critical_section\<close>.
  \<^item> \<open>End_54\<close>, \<open>End_55\<close>, \<open>End_56\<close>: the branch of lines 53 to 58.
  \<^item> \<open>Parked\<close>: blocked inside \<^verbatim>\<open>cond.wait(m)\<close> at line 81, the mutex released.
  \<^item> \<open>Woken\<close>: signalled (or woken spuriously) inside \<^verbatim>\<open>cond.wait(m)\<close>, waiting to take
    the mutex again.
  \<^item> \<open>End_85\<close> to \<open>End_88\<close>: the common tail of lines 85 to 88.
\<close>

datatype pc =
  Active
  | Begin_41 | Begin_42
  | Critical
  | Cancel_47 | Cancel_48
  | End_54 | End_55 | End_56
  | Parked | Woken
  | End_85 | End_86 | End_87 | End_88

text \<open>
  The object together with its workers: \<open>pcs ! t\<close> is the sequence point of worker \<open>t\<close>
  and \<open>ret ! t\<close> the value that its last call of \<^verbatim>\<open>end_sleep_critical_section\<close> returned.
\<close>

record system = shared_termination +
  pcs :: "pc list"
  ret :: "bool option list"

definition goto :: "nat \<Rightarrow> pc \<Rightarrow> system \<Rightarrow> system" where
  "goto t p s = s\<lparr>pcs := (pcs s)[t := p]\<rparr>"

text \<open>
  Modelled from the spec: \<^verbatim>\<open>cond.broadcast()\<close> wakes every waiter; \<^verbatim>\<open>cond.wait(m)\<close>
  releases the mutex and blocks the caller in one step.
\<close>

definition wake :: "pc \<Rightarrow> pc" where
  "wake p = (if p = Parked then Woken else p)"

definition cond_broadcast :: "system \<Rightarrow> system" where
  "cond_broadcast s = s\<lparr>pcs := map wake (pcs s)\<rparr>"

definition cond_wait :: "nat \<Rightarrow> system \<Rightarrow> system" where
  "cond_wait t s = goto t Parked (s\<lparr>m := None\<rparr>)"

text \<open>The loop \<^verbatim>\<open>for (size_t i = 0; i < n; ++i) sleeping[i] = 0;\<close> of lines 26 and 34.\<close>

definition clear_flags :: "nat \<Rightarrow> 8 word list \<Rightarrow> 8 word list" where
  "clear_flags n v = fold (\<lambda>i w. w[i := 0]) [0..<n] v"

text \<open>
  The constructor, lines 20 to 27. \<^verbatim>\<open>sleeping.resize(ncpus)\<close> on the empty vector gives
  \<open>ncpus\<close> zero bytes. There is one worker per cpu, each outside the protocol.
\<close>

definition new_shared_termination :: "size_t \<Rightarrow> system" where
  "new_shared_termination ncpus =
     \<lparr>numactive = ncpus, numcpus = ncpus, trying_to_sleep = 0,
      sleeping = clear_flags (unat ncpus) (replicate (unat ncpus) 0),
      done = False, m = None,
      pcs = replicate (unat ncpus) Active, ret = replicate (unat ncpus) None\<rparr>"

text \<open>Lines 29 to 35. \<^verbatim>\<open>sleeping.size()\<close> is converted to \<^verbatim>\<open>size_t\<close>.\<close>

definition reset :: "system \<Rightarrow> system" where
  "reset s =
     s\<lparr>numactive := of_nat (length (sleeping s)),
       numcpus := of_nat (length (sleeping s)),
       done := False,
       trying_to_sleep := 0,
       sleeping := clear_flags (length (sleeping s)) (sleeping s)\<rparr>"

text \<open>
  Lines 39 to 43, one shared access per step. \<^verbatim>\<open>m.lock()\<close> can be taken only when the
  mutex is free; until then the worker has no step (\<open>None\<close>).
\<close>

definition begin_sleep_critical_section :: "nat \<Rightarrow> system \<Rightarrow> system option" where
  "begin_sleep_critical_section cpuid s =
     (case pcs s ! cpuid of
        Active \<Rightarrow> Some (goto cpuid Begin_41 (s\<lparr>trying_to_sleep := trying_to_sleep s + 1\<rparr>))
      | Begin_41 \<Rightarrow> Some (goto cpuid Begin_42 (s\<lparr>sleeping := (sleeping s)[cpuid := 1]\<rparr>))
      | Begin_42 \<Rightarrow>
          (case m s of
             None \<Rightarrow> Some (goto cpuid Critical (s\<lparr>m := Some cpuid\<rparr>))
           | Some _ \<Rightarrow> None)
      | _ \<Rightarrow> None)"

text \<open>Lines 45 to 49.\<close>

definition cancel_sleep_critical_section :: "nat \<Rightarrow> system \<Rightarrow> system option" where
  "cancel_sleep_critical_section cpuid s =
     (case pcs s ! cpuid of
        Critical \<Rightarrow> Some (goto cpuid Cancel_47 (s\<lparr>m := None\<rparr>))
      | Cancel_47 \<Rightarrow> Some (goto cpuid Cancel_48 (s\<lparr>sleeping := (sleeping s)[cpuid := 0]\<rparr>))
      | Cancel_48 \<Rightarrow> Some (goto cpuid Active (s\<lparr>trying_to_sleep := trying_to_sleep s - 1\<rparr>))
      | _ \<Rightarrow> None)"

text \<open>
  Lines 53 to 81, executed by a worker that holds the mutex: the test of \<open>done\<close>, the
  decrement, the test of \<open>numactive\<close>, and then either the declaration of termination
  with its broadcast (the worker goes on to line 85, still holding the mutex) or the
  wait. The mutex is held throughout, and every other access to \<open>numactive\<close> and every
  write of \<open>done\<close> is made under the mutex too, so the block is one step.
\<close>

definition end_locked :: "nat \<Rightarrow> system \<Rightarrow> system" where
  "end_locked cpuid s =
     (if done s then goto cpuid End_54 s
      else
        let s1 = s\<lparr>numactive := numactive s - 1\<rparr>
        in if numactive s1 = 0
           then goto cpuid End_85 (cond_broadcast (s1\<lparr>done := True\<rparr>))
           else cond_wait cpuid s1)"

text \<open>
  Lines 81 to 83 after the wake-up: \<^verbatim>\<open>cond.wait(m)\<close> returns with the mutex taken again,
  which needs the mutex to be free, and line 83 runs under it.
\<close>

definition end_resume :: "nat \<Rightarrow> system \<Rightarrow> system option" where
  "end_resume cpuid s =
     (case m s of
        None \<Rightarrow>
          (let s1 = s\<lparr>m := Some cpuid\<rparr>;
               s2 = (if \<not> done s1 then s1\<lparr>numactive := numactive s1 + 1\<rparr> else s1)
           in Some (goto cpuid End_85 s2))
      | Some _ \<Rightarrow> None)"

text \<open>
  Lines 51 to 89. A parked worker has no step of its own: it is moved on by a broadcast
  or by a spurious wake-up.
\<close>

definition end_sleep_critical_section :: "nat \<Rightarrow> system \<Rightarrow> system option" where
  "end_sleep_critical_section cpuid s =
     (case pcs s ! cpuid of
        Critical \<Rightarrow> Some (end_locked cpuid s)
      | End_54 \<Rightarrow> Some (goto cpuid End_55 (s\<lparr>m := None\<rparr>))
      | End_55 \<Rightarrow> Some (goto cpuid End_56 (s\<lparr>trying_to_sleep := trying_to_sleep s - 1\<rparr>))
      | End_56 \<Rightarrow>
          Some (goto cpuid Active
                  (s\<lparr>sleeping := (sleeping s)[cpuid := 0], ret := (ret s)[cpuid := Some True]\<rparr>))
      | Woken \<Rightarrow> end_resume cpuid s
      | End_85 \<Rightarrow> Some (goto cpuid End_86 (s\<lparr>m := None\<rparr>))
      | End_86 \<Rightarrow> Some (goto cpuid End_87 (s\<lparr>trying_to_sleep := trying_to_sleep s - 1\<rparr>))
      | End_87 \<Rightarrow> Some (goto cpuid End_88 (s\<lparr>sleeping := (sleeping s)[cpuid := 0]\<rparr>))
      | End_88 \<Rightarrow> Some (goto cpuid Active (s\<lparr>ret := (ret s)[cpuid := Some (done s)]\<rparr>))
      | _ \<Rightarrow> None)"

text \<open>
  Lines 91 to 103 and 105 to 111. The caller is any thread. The test of the hint is made
  without the mutex. The locked part begins and ends with the mutex free and touches
  only what the mutex protects, so it is taken together with the test as one step; the
  caller has no step (\<open>None\<close>) while another thread holds the mutex. A broadcast that
  comes later than its test wakes no worker that a spurious wake-up could not wake.
\<close>

definition new_job_locked :: "system \<Rightarrow> system option" where
  "new_job_locked s =
     (case m s of
        None \<Rightarrow> Some (if numactive s < numcpus s then cond_broadcast s else s)
      | Some _ \<Rightarrow> None)"

definition new_job :: "system \<Rightarrow> system option" where
  "new_job s = (if trying_to_sleep s > 0 then new_job_locked s else Some s)"

definition new_job_hint :: "nat \<Rightarrow> system \<Rightarrow> system option" where
  "new_job_hint cpuhint s = (if sleeping s ! cpuhint \<noteq> 0 then new_job_locked s else Some s)"

text \<open>Lines 113 to 115.\<close>

definition num_active :: "system \<Rightarrow> size_t" where
  "num_active s = numactive s"

text \<open>
  The steps of the system. \<open>Begin t\<close>, \<open>Cancel t\<close> and \<open>End t\<close> let worker \<open>t\<close> execute the
  next step of the named function. A worker id indexes \<open>sleeping\<close> unchecked, so an id
  out of range is undefined behaviour in the source and no step here. A spurious
  wake-up moves one parked worker on.
\<close>

datatype event =
  Begin nat
  | Cancel nat
  | End nat
  | New_job
  | New_job_hint nat
  | Spurious_wakeup nat

definition in_range :: "nat \<Rightarrow> system \<Rightarrow> bool" where
  "in_range t s = (t < length (pcs s) \<and> t < length (sleeping s))"

fun step :: "event \<Rightarrow> system \<Rightarrow> system option" where
  "step (Begin t) s = (if in_range t s then begin_sleep_critical_section t s else None)"
| "step (Cancel t) s = (if in_range t s then cancel_sleep_critical_section t s else None)"
| "step (End t) s = (if in_range t s then end_sleep_critical_section t s else None)"
| "step New_job s = new_job s"
| "step (New_job_hint h) s = (if h < length (sleeping s) then new_job_hint h s else None)"
| "step (Spurious_wakeup t) s =
     (if in_range t s \<and> pcs s ! t = Parked then Some (goto t Woken s) else None)"

fun run :: "event list \<Rightarrow> system \<Rightarrow> system option" where
  "run [] s = Some s"
| "run (e # es) s = (case step e s of None \<Rightarrow> None | Some s' \<Rightarrow> run es s')"

text \<open>
  A detector at rest, as between two super-steps: no worker is inside the protocol and
  the mutex is free. The size of a vector fits \<^verbatim>\<open>size_t\<close>.
\<close>

definition quiescent :: "system \<Rightarrow> bool" where
  "quiescent s =
     (m s = None \<and> length (pcs s) = length (sleeping s) \<and>
      length (ret s) = length (sleeping s) \<and>
      list_all (\<lambda>p. p = Active) (pcs s) \<and> length (sleeping s) < 2 ^ 64)"

section \<open>Invariants of the termination detector\<close>

text \<open>
  The sequence points at which a worker holds the mutex, and those at which it has
  decremented \<open>numactive\<close> at line 65 without having incremented it again at line 83.
\<close>

definition holds_mutex :: "pc \<Rightarrow> bool" where
  "holds_mutex p = (p = Critical \<or> p = End_54 \<or> p = End_85)"

definition away :: "pc \<Rightarrow> bool" where
  "away p = (p = Parked \<or> p = Woken)"

definition shape_ok :: "nat \<Rightarrow> system \<Rightarrow> bool" where
  "shape_ok n s =
     (length (pcs s) = n \<and> length (sleeping s) = n \<and> length (ret s) = n \<and>
      n < 2 ^ 64 \<and> numcpus s = of_nat n)"

definition mutex_rel :: "nat option \<Rightarrow> pc list \<Rightarrow> bool" where
  "mutex_rel owner ps =
     (case owner of
        None \<Rightarrow> (\<forall>u < length ps. \<not> holds_mutex (ps ! u))
      | Some t \<Rightarrow> t < length ps \<and> holds_mutex (ps ! t) \<and>
                 (\<forall>u < length ps. u \<noteq> t \<longrightarrow> \<not> holds_mutex (ps ! u)))"

definition mutex_ok :: "system \<Rightarrow> bool" where
  "mutex_ok s = mutex_rel (m s) (pcs s)"

definition count_ok :: "system \<Rightarrow> bool" where
  "count_ok s =
     (if done s then numactive s = 0 \<and> Parked \<notin> set (pcs s)
      else unat (numactive s) + length (filter away (pcs s)) = length (pcs s))"

definition inv :: "nat \<Rightarrow> system \<Rightarrow> bool" where
  "inv n s = (shape_ok n s \<and> mutex_ok s \<and> count_ok s)"


text \<open>
  The sequence points at which a worker is counted in \<open>trying_to_sleep\<close> (after line 40
  and before the decrement of line 48, 55 or 86), and those at which its byte in
  \<open>sleeping\<close> is set (after line 41 and before the clearing of line 47, 56 or 87).
\<close>

definition hinted :: "pc \<Rightarrow> bool" where
  "hinted p = (p \<noteq> Active \<and> p \<noteq> End_56 \<and> p \<noteq> End_87 \<and> p \<noteq> End_88)"

definition flagged :: "pc \<Rightarrow> bool" where
  "flagged p = (p \<noteq> Active \<and> p \<noteq> Begin_41 \<and> p \<noteq> Cancel_48 \<and> p \<noteq> End_88)"

definition hint_ok :: "system \<Rightarrow> bool" where
  "hint_ok s =
     (length (sleeping s) = length (pcs s) \<and> length (pcs s) < 2 ^ 64 \<and>
      unat (trying_to_sleep s) = length (filter hinted (pcs s)) \<and>
      (\<forall>t < length (pcs s). (sleeping s ! t \<noteq> 0) = flagged (pcs s ! t)))"


section \<open>Properties of the scope factory\<close>

lemma swap_graphs_fields:
  "srcgraph (swap_graphs f) = destgraph f"
  "destgraph (swap_graphs f) = srcgraph f"
  "vertexdatagraph (swap_graphs f) = vertexdatagraph f"
  "scopes (swap_graphs f) = scopes f"
  by (simp_all add: swap_graphs_def)

lemma swap_graphs_twice: "swap_graphs (swap_graphs f) = f"
  by (simp add: swap_graphs_def)

lemma swap_graphs_funpow:
  "srcgraph ((swap_graphs ^^ n) f) = (if even n then srcgraph f else destgraph f) \<and>
   destgraph ((swap_graphs ^^ n) f) = (if even n then destgraph f else srcgraph f) \<and>
   vertexdatagraph ((swap_graphs ^^ n) f) = vertexdatagraph f \<and>
   scopes ((swap_graphs ^^ n) f) = scopes f"
  by (induction n) (simp_all add: swap_graphs_fields)

text \<open>
  C4. After \<open>n\<close> calls of \<^verbatim>\<open>swap_graphs()\<close>, \<^verbatim>\<open>get_src_graph()\<close> and \<^verbatim>\<open>get_dest_graph()\<close>
  return the initial assignment when \<open>n\<close> is even and the initial assignment exchanged
  when \<open>n\<close> is odd; \<^verbatim>\<open>get_vertex_data_graph()\<close> returns the same handle for every \<open>n\<close>;
  and two swaps in a row give back the factory unchanged.
\<close>

theorem swap_graphs_parity:
  "get_src_graph ((swap_graphs ^^ n) f)
     = (if even n then get_src_graph f else get_dest_graph f) \<and>
   get_dest_graph ((swap_graphs ^^ n) f)
     = (if even n then get_dest_graph f else get_src_graph f) \<and>
   get_vertex_data_graph ((swap_graphs ^^ n) f) = get_vertex_data_graph f \<and>
   swap_graphs (swap_graphs f) = f"
  using swap_graphs_funpow [of n f]
  by (simp add: get_src_graph_def get_dest_graph_def get_vertex_data_graph_def
      swap_graphs_twice)

theorem swap_graphs_parity_witness:
  "get_src_graph ((swap_graphs ^^ 3) (new_factory 100 200 2)) = 200 \<and>
   get_dest_graph ((swap_graphs ^^ 3) (new_factory 100 200 2)) = 100 \<and>
   get_vertex_data_graph ((swap_graphs ^^ 3) (new_factory 100 200 2)) = 200 \<and>
   get_src_graph ((swap_graphs ^^ 2) (new_factory 100 200 2)) = 100 \<and>
   get_dest_graph ((swap_graphs ^^ 2) (new_factory 100 200 2)) = 200"
  using swap_graphs_parity [of 3 "new_factory 100 200 2"]
    swap_graphs_parity [of 2 "new_factory 100 200 2"]
  by (simp add: get_src_graph_def get_dest_graph_def get_vertex_data_graph_def
      new_factory_def)

lemma do_call_keeps:
  "do_call c f = Inr f' \<Longrightarrow>
   vertexdatagraph f' = vertexdatagraph f \<and> length (scopes f') = length (scopes f)"
  by (cases c)
    (auto simp: get_scope_def swap_graphs_fields set_default_scope_def release_scope_def
      split: if_splits)

lemma do_calls_keeps:
  "do_calls cs f = Inr f' \<Longrightarrow>
   vertexdatagraph f' = vertexdatagraph f \<and> length (scopes f') = length (scopes f)"
proof (induction cs arbitrary: f)
  case Nil
  then show ?case by simp
next
  case (Cons c cs)
  then obtain g where g: "do_call c f = Inr g" and r: "do_calls cs g = Inr f'"
    by (auto split: sum.splits)
  from Cons.IH [OF r] do_call_keeps [OF g] show ?case by simp
qed

text \<open>
  C8. For a worker id \<open>w\<close> in range, \<^verbatim>\<open>get_scope(w, v)\<close> returns slot \<open>w\<close> of the pool,
  whatever the vertex, the range and the state of the factory; the slot is then bound
  to \<open>v\<close> and the current three graph handles; a later \<^verbatim>\<open>get_scope(w, v')\<close> returns the
  same slot, bound to \<open>v'\<close>; and the call changes no other slot, not the size of the
  pool and none of the three graph handles.
\<close>

theorem get_scope_binding:
  assumes "w < length (scopes f)"
  shows "\<exists>f1 f2.
      get_scope w v r f = Inr (f1, w) \<and>
      scopes f1 ! w = Some \<lparr>scope_src = srcgraph f, scope_dest = destgraph f,
                             scope_vdata = vertexdatagraph f, scope_vertex = v\<rparr> \<and>
      get_scope w v' r' f1 = Inr (f2, w) \<and>
      map_option scope_vertex (scopes f2 ! w) = Some v' \<and>
      (\<forall>u. u \<noteq> w \<longrightarrow> scopes f1 ! u = scopes f ! u) \<and>
      length (scopes f1) = length (scopes f) \<and>
      srcgraph f1 = srcgraph f \<and> destgraph f1 = destgraph f \<and>
      vertexdatagraph f1 = vertexdatagraph f"
  using assms by (simp add: get_scope_def scope_init_def)

theorem get_scope_binding_witness:
  "\<exists>f1 f2.
      get_scope 1 7 () (new_factory 100 200 2) = Inr (f1, 1) \<and>
      scopes f1 ! 1 = Some \<lparr>scope_src = 100, scope_dest = 200,
                             scope_vdata = 200, scope_vertex = 7\<rparr> \<and>
      get_scope 1 9 () f1 = Inr (f2, 1) \<and>
      map_option scope_vertex (scopes f2 ! 1) = Some 9 \<and>
      scopes f1 ! 0 = None \<and>
      srcgraph f1 = 100 \<and> destgraph f1 = 200 \<and> vertexdatagraph f1 = 200"
proof -
  have l: "1 < length (scopes (new_factory 100 200 2))"
    by (simp add: new_factory_def)
  have z: "scopes (new_factory 100 200 2) ! 0 = None"
    by (simp add: new_factory_def)
  from get_scope_binding [OF l, of 7 "()" 9 "()"] obtain f1 f2 where
    h: "get_scope 1 7 () (new_factory 100 200 2) = Inr (f1, 1)"
      "scopes f1 ! 1 = Some \<lparr>scope_src = srcgraph (new_factory 100 200 2),
          scope_dest = destgraph (new_factory 100 200 2),
          scope_vdata = vertexdatagraph (new_factory 100 200 2), scope_vertex = 7\<rparr>"
      "get_scope 1 9 () f1 = Inr (f2, 1)"
      "map_option scope_vertex (scopes f2 ! 1) = Some 9"
      "\<forall>u. u \<noteq> 1 \<longrightarrow> scopes f1 ! u = scopes (new_factory 100 200 2) ! u"
      "srcgraph f1 = srcgraph (new_factory 100 200 2)"
      "destgraph f1 = destgraph (new_factory 100 200 2)"
      "vertexdatagraph f1 = vertexdatagraph (new_factory 100 200 2)"
    by blast
  from h(5) z have "scopes f1 ! 0 = None" by simp
  with h show ?thesis by (auto simp: new_factory_def)
qed

text \<open>
  C9. \<^verbatim>\<open>get_scope\<close> ends in the failed assertion exactly when the worker id is not below
  the size of the pool; with a worker id below it the call succeeds; and the size of
  the pool is the \<open>ncpus\<close> given at construction, after any sequence of calls.
\<close>

theorem get_scope_fails_iff_out_of_range:
  "(get_scope cpuid v r f = Inl Assertion_failed) = (\<not> cpuid < length (scopes f)) \<and>
   (cpuid < length (scopes f) \<longrightarrow> (\<exists>f' p. get_scope cpuid v r f = Inr (f', p))) \<and>
   length (scopes (new_factory src_g dest_g ncpus)) = ncpus \<and>
   (do_calls cs (new_factory src_g dest_g ncpus) = Inr g \<longrightarrow> length (scopes g) = ncpus)"
proof -
  have "do_calls cs (new_factory src_g dest_g ncpus) = Inr g \<longrightarrow> length (scopes g) = ncpus"
    using do_calls_keeps [of cs "new_factory src_g dest_g ncpus" g]
    by (simp add: new_factory_def)
  then show ?thesis by (simp add: get_scope_def new_factory_def)
qed

theorem get_scope_fails_iff_out_of_range_witness:
  "get_scope 2 7 () (new_factory 100 200 2) = Inl Assertion_failed \<and>
   (\<exists>f' p. get_scope 1 7 () (new_factory 100 200 2) = Inr (f', p)) \<and>
   do_calls [Get_scope 0 5 (), Swap_graphs] (new_factory 100 200 2) =
     Inr \<lparr>srcgraph = 200, destgraph = 100, vertexdatagraph = 200,
          scopes = [Some \<lparr>scope_src = 100, scope_dest = 200, scope_vdata = 200,
                           scope_vertex = 5\<rparr>, None]\<rparr> \<and>
   length (scopes \<lparr>srcgraph = 200, destgraph = 100, vertexdatagraph = 200,
          scopes = [Some \<lparr>scope_src = 100, scope_dest = 200, scope_vdata = 200,
                           scope_vertex = 5\<rparr>, None]\<rparr>) = 2"
proof -
  let ?g = "\<lparr>srcgraph = 200, destgraph = 100, vertexdatagraph = 200,
          scopes = [Some \<lparr>scope_src = 100, scope_dest = 200, scope_vdata = 200,
                           scope_vertex = 5\<rparr>, None]\<rparr>"
  have r: "do_calls [Get_scope 0 5 (), Swap_graphs] (new_factory 100 200 2) = Inr ?g"
    by code_simp
  have l: "length (scopes (new_factory 100 200 2)) = 2" by (simp add: new_factory_def)
  from get_scope_fails_iff_out_of_range [where cpuid = 2 and v = 7 and r = "()"
      and f = "new_factory 100 200 2" and cs = "[Get_scope 0 5 (), Swap_graphs]"
      and src_g = 100 and dest_g = 200 and ncpus = 2 and g = ?g]
    get_scope_fails_iff_out_of_range [where cpuid = 1 and v = 7 and r = "()"
      and f = "new_factory 100 200 2" and cs = "[] :: unit factory_call list"
      and src_g = 100 and dest_g = 200 and ncpus = 2 and g = "new_factory 100 200 2"]
    r l
  show ?thesis by simp
qed

text \<open>
  C10. The vertex-data graph handle is the dest graph handle given to the constructor,
  and it stays so after any sequence of calls of \<^verbatim>\<open>get_scope\<close>, \<^verbatim>\<open>swap_graphs\<close>,
  \<^verbatim>\<open>set_default_scope\<close> and \<^verbatim>\<open>release_scope\<close>.
\<close>

theorem vertex_data_graph_is_initial_dest:
  "get_vertex_data_graph (new_factory src_g dest_g ncpus) = dest_g \<and>
   get_dest_graph (new_factory src_g dest_g ncpus) = dest_g \<and>
   get_vertex_data_graph (swap_graphs f) = get_vertex_data_graph f \<and>
   (do_calls cs (new_factory src_g dest_g ncpus) = Inr g \<longrightarrow>
      get_vertex_data_graph g = dest_g)"
proof -
  have "do_calls cs (new_factory src_g dest_g ncpus) = Inr g \<longrightarrow>
      get_vertex_data_graph g = dest_g"
    using do_calls_keeps [of cs "new_factory src_g dest_g ncpus" g]
    by (simp add: new_factory_def get_vertex_data_graph_def)
  then show ?thesis
    by (simp add: get_vertex_data_graph_def get_dest_graph_def new_factory_def
        swap_graphs_fields)
qed

theorem vertex_data_graph_is_initial_dest_witness:
  "do_calls [Get_scope 0 5 (), Swap_graphs, Release_scope 0, Set_default_scope ()]
     (new_factory 100 200 2) =
     Inr \<lparr>srcgraph = 200, destgraph = 100, vertexdatagraph = 200,
          scopes = [Some \<lparr>scope_src = 100, scope_dest = 200, scope_vdata = 200,
                           scope_vertex = 5\<rparr>, None]\<rparr> \<and>
   get_vertex_data_graph \<lparr>srcgraph = 200, destgraph = 100, vertexdatagraph = 200,
          scopes = [Some \<lparr>scope_src = 100, scope_dest = 200, scope_vdata = 200,
                           scope_vertex = 5\<rparr>, None]\<rparr> = 200 \<and>
   get_dest_graph \<lparr>srcgraph = 200, destgraph = 100, vertexdatagraph = 200,
          scopes = [Some \<lparr>scope_src = 100, scope_dest = 200, scope_vdata = 200,
                           scope_vertex = 5\<rparr>, None]\<rparr> = 100"
proof -
  let ?g = "\<lparr>srcgraph = 200, destgraph = 100, vertexdatagraph = 200,
          scopes = [Some \<lparr>scope_src = 100, scope_dest = 200, scope_vdata = 200,
                           scope_vertex = 5\<rparr>, None]\<rparr>"
  have r: "do_calls [Get_scope 0 5 (), Swap_graphs, Release_scope 0, Set_default_scope ()]
     (new_factory 100 200 2) = Inr ?g"
    by code_simp
  from vertex_data_graph_is_initial_dest [where src_g = 100 and dest_g = 200 and ncpus = 2
      and cs = "[Get_scope 0 5 (), Swap_graphs, Release_scope 0, Set_default_scope ()]"
      and g = ?g] r
  show ?thesis by (simp add: get_dest_graph_def)
qed

section \<open>Properties of the termination detector\<close>

lemma clear_flags_gen: "k \<le> length v \<Longrightarrow> clear_flags k v = replicate k 0 @ drop k v"
proof (induction k)
  case 0 then show ?case by (simp add: clear_flags_def)
next
  case (Suc k)
  then have "clear_flags (Suc k) v = (replicate k 0 @ drop k v)[k := 0]"
    by (simp add: clear_flags_def)
  also have "\<dots> = replicate k 0 @ (drop k v)[0 := 0]"
    by (simp add: list_update_append)
  also have "\<dots> = replicate (Suc k) 0 @ drop (Suc k) v"
    using Suc.prems by (simp add: Cons_nth_drop_Suc [symmetric] replicate_append_same)
  finally show ?case .
qed

lemma clear_flags_all: "clear_flags (length v) v = replicate (length v) 0"
  by (simp add: clear_flags_gen)

lemma filter_update_count:
  "t < length xs \<Longrightarrow>
   length (filter P (xs[t := x])) + (if P (xs ! t) then 1 else 0)
     = length (filter P xs) + (if P x then 1 else 0)"
proof (induction xs arbitrary: t)
  case Nil
  then show ?case by simp
next
  case (Cons a xs)
  show ?case
  proof (cases t)
    case 0
    then show ?thesis by simp
  next
    case (Suc u)
    with Cons.prems have "u < length xs" by simp
    from Cons.IH [OF this] show ?thesis using Suc by simp
  qed
qed

lemma count_same:
  "t < length xs \<Longrightarrow> away (xs ! t) = away x \<Longrightarrow>
   length (filter away (xs[t := x])) = length (filter away xs)"
  using filter_update_count [of t xs away x] by (simp split: if_splits)

lemma count_enter:
  "t < length xs \<Longrightarrow> \<not> away (xs ! t) \<Longrightarrow> away x \<Longrightarrow>
   length (filter away (xs[t := x])) = Suc (length (filter away xs))"
  using filter_update_count [of t xs away x] by simp

lemma count_leave:
  "t < length xs \<Longrightarrow> away (xs ! t) \<Longrightarrow> \<not> away x \<Longrightarrow>
   Suc (length (filter away (xs[t := x]))) = length (filter away xs)"
  using filter_update_count [of t xs away x] by simp

lemma count_wake: "length (filter away (map wake xs)) = length (filter away xs)"
  by (induction xs) (auto simp: away_def wake_def)

lemma no_parked_wake: "Parked \<notin> set (map wake xs)"
  by (auto simp: wake_def)

lemma count_less: "t < length xs \<Longrightarrow> \<not> away (xs ! t) \<Longrightarrow> length (filter away xs) < length xs"
  by (rule length_filter_less [of "xs ! t"]) simp_all

lemma count_pos: "t < length xs \<Longrightarrow> away (xs ! t) \<Longrightarrow> 0 < length (filter away xs)"
  by (metis filter_empty_conv length_greater_0_conv nth_mem)

lemma mutex_rel_outside:
  "mutex_rel owner ps \<Longrightarrow> t < length ps \<Longrightarrow> \<not> holds_mutex (ps ! t) \<Longrightarrow> \<not> holds_mutex p \<Longrightarrow>
   mutex_rel owner (ps[t := p])"
  unfolding mutex_rel_def by (cases owner) (auto simp: nth_list_update)

lemma mutex_rel_owner:
  "mutex_rel owner ps \<Longrightarrow> t < length ps \<Longrightarrow> holds_mutex (ps ! t) \<Longrightarrow> owner = Some t"
  unfolding mutex_rel_def by (cases owner) auto

lemma mutex_rel_inside:
  "mutex_rel owner ps \<Longrightarrow> t < length ps \<Longrightarrow> holds_mutex (ps ! t) \<Longrightarrow> holds_mutex p \<Longrightarrow>
   mutex_rel owner (ps[t := p])"
  unfolding mutex_rel_def by (cases owner) (auto simp: nth_list_update)

lemma mutex_rel_release:
  "mutex_rel owner ps \<Longrightarrow> t < length ps \<Longrightarrow> holds_mutex (ps ! t) \<Longrightarrow> \<not> holds_mutex p \<Longrightarrow>
   mutex_rel None (ps[t := p])"
  unfolding mutex_rel_def by (cases owner) (auto simp: nth_list_update)

lemma mutex_rel_acquire:
  "mutex_rel None ps \<Longrightarrow> t < length ps \<Longrightarrow> holds_mutex p \<Longrightarrow>
   mutex_rel (Some t) (ps[t := p])"
  unfolding mutex_rel_def by (auto simp: nth_list_update)

lemma holds_mutex_wake: "holds_mutex (wake p) = holds_mutex p"
  by (simp add: wake_def holds_mutex_def)

lemma mutex_rel_wake: "mutex_rel owner ps \<Longrightarrow> mutex_rel owner (map wake ps)"
  unfolding mutex_rel_def by (cases owner) (simp_all add: holds_mutex_wake)

lemma parked_updateD: "Parked \<in> set (xs[t := p]) \<Longrightarrow> p = Parked \<or> Parked \<in> set xs"
  using set_update_subset_insert [of xs t p] by auto

lemma begin_shape:
  "shape_ok n s \<Longrightarrow> begin_sleep_critical_section t s = Some s' \<Longrightarrow> shape_ok n s'"
  by (auto simp: begin_sleep_critical_section_def shape_ok_def goto_def
      split: pc.splits option.splits)

lemma begin_mutex:
  "mutex_ok s \<Longrightarrow> t < length (pcs s) \<Longrightarrow> begin_sleep_critical_section t s = Some s' \<Longrightarrow>
   mutex_ok s'"
  by (auto simp: begin_sleep_critical_section_def mutex_ok_def goto_def holds_mutex_def
      split: pc.splits option.splits intro!: mutex_rel_outside mutex_rel_acquire)

lemma begin_count:
  "count_ok s \<Longrightarrow> t < length (pcs s) \<Longrightarrow> begin_sleep_critical_section t s = Some s' \<Longrightarrow>
   count_ok s'"
  by (auto simp: begin_sleep_critical_section_def count_ok_def goto_def away_def count_same
      split: pc.splits option.splits if_splits dest!: parked_updateD)

lemma cancel_shape:
  "shape_ok n s \<Longrightarrow> cancel_sleep_critical_section t s = Some s' \<Longrightarrow> shape_ok n s'"
  by (auto simp: cancel_sleep_critical_section_def shape_ok_def goto_def
      split: pc.splits option.splits)

lemma cancel_mutex:
  "mutex_ok s \<Longrightarrow> t < length (pcs s) \<Longrightarrow> cancel_sleep_critical_section t s = Some s' \<Longrightarrow>
   mutex_ok s'"
  by (auto simp: cancel_sleep_critical_section_def mutex_ok_def goto_def holds_mutex_def
      split: pc.splits option.splits intro!: mutex_rel_outside mutex_rel_release)

lemma cancel_count:
  "count_ok s \<Longrightarrow> t < length (pcs s) \<Longrightarrow> cancel_sleep_critical_section t s = Some s' \<Longrightarrow>
   count_ok s'"
  by (auto simp: cancel_sleep_critical_section_def count_ok_def goto_def away_def count_same
      split: pc.splits option.splits if_splits dest!: parked_updateD)

lemma broadcast_shape: "shape_ok n s \<Longrightarrow> shape_ok n (cond_broadcast s)"
  by (simp add: shape_ok_def cond_broadcast_def)

lemma broadcast_mutex: "mutex_ok s \<Longrightarrow> mutex_ok (cond_broadcast s)"
  by (simp add: mutex_ok_def cond_broadcast_def mutex_rel_wake)

lemma away_o_wake: "away \<circ> wake = away"
  by (auto simp: fun_eq_iff away_def wake_def)

lemma broadcast_count: "count_ok s \<Longrightarrow> count_ok (cond_broadcast s)"
  using no_parked_wake [of "pcs s"]
  by (simp add: count_ok_def cond_broadcast_def away_o_wake del: set_map)

lemma new_job_locked_inv:
  "inv n s \<Longrightarrow> new_job_locked s = Some s' \<Longrightarrow> inv n s'"
  by (auto simp: new_job_locked_def inv_def broadcast_shape broadcast_mutex broadcast_count
      split: option.splits if_splits)

lemma new_job_inv: "inv n s \<Longrightarrow> new_job s = Some s' \<Longrightarrow> inv n s'"
  by (auto simp: new_job_def split: if_splits dest: new_job_locked_inv)

lemma new_job_hint_inv: "inv n s \<Longrightarrow> new_job_hint h s = Some s' \<Longrightarrow> inv n s'"
  by (auto simp: new_job_hint_def split: if_splits dest: new_job_locked_inv)

lemma spurious_inv:
  "inv n s \<Longrightarrow> t < length (pcs s) \<Longrightarrow> pcs s ! t = Parked \<Longrightarrow> inv n (goto t Woken s)"
  using nth_mem [of t "pcs s"]
  by (auto simp: inv_def shape_ok_def mutex_ok_def count_ok_def goto_def away_def
      holds_mutex_def count_same intro!: mutex_rel_outside dest!: parked_updateD)

lemma unat_inc: "unat x < k \<Longrightarrow> k < 2 ^ 64 \<Longrightarrow> unat (x + 1 :: 64 word) = Suc (unat x)"
proof -
  assume a: "unat x < k" "k < 2 ^ 64"
  have "unat (x + 1) = (unat x + 1) mod 2 ^ 64"
    by (simp add: unat_word_ariths)
  also have "\<dots> = unat x + 1" using a by simp
  finally show ?thesis by simp
qed

lemma unat_dec: "0 < unat x \<Longrightarrow> Suc (unat (x - 1 :: 64 word)) = unat x"
  by (simp add: unat_minus_one unat_gt_0)

lemma end_locked_shape: "shape_ok n s \<Longrightarrow> shape_ok n (end_locked t s)"
  by (simp add: end_locked_def shape_ok_def goto_def cond_wait_def cond_broadcast_def Let_def)

lemma end_locked_mutex:
  "mutex_ok s \<Longrightarrow> t < length (pcs s) \<Longrightarrow> pcs s ! t = Critical \<Longrightarrow> mutex_ok (end_locked t s)"
  by (auto simp: end_locked_def mutex_ok_def goto_def cond_wait_def cond_broadcast_def Let_def
      holds_mutex_def wake_def
      intro!: mutex_rel_inside mutex_rel_release mutex_rel_wake)

lemma end_locked_count:
  assumes c: "count_ok s" and t: "t < length (pcs s)" and pc: "pcs s ! t = Critical"
  shows "count_ok (end_locked t s)"
proof (cases "done s")
  case True
  with c t show ?thesis
    by (auto simp: end_locked_def count_ok_def goto_def dest!: parked_updateD)
next
  case False
  from pc have na: "\<not> away (pcs s ! t)" by (simp add: away_def)
  from c False have sum: "unat (numactive s) + length (filter away (pcs s)) = length (pcs s)"
    by (simp add: count_ok_def)
  from count_less [OF t na] sum have pos: "0 < unat (numactive s)" by simp
  show ?thesis
  proof (cases "numactive s - 1 = 0")
    case True
    have "Parked \<notin> set ((map wake (pcs s))[t := End_85])"
      using no_parked_wake [of "pcs s"] by (auto dest!: parked_updateD)
    with True False show ?thesis
      by (simp add: end_locked_def count_ok_def goto_def cond_broadcast_def Let_def del: set_map)
  next
    case nz: False
    have "length (filter away ((pcs s)[t := Parked])) = Suc (length (filter away (pcs s)))"
      using t na by (simp add: count_enter away_def)
    with sum unat_dec [OF pos] nz False show ?thesis
      by (simp add: end_locked_def count_ok_def goto_def cond_wait_def Let_def)
  qed
qed

lemma end_locked_inv:
  "inv n s \<Longrightarrow> t < length (pcs s) \<Longrightarrow> pcs s ! t = Critical \<Longrightarrow> inv n (end_locked t s)"
  by (simp add: inv_def end_locked_shape end_locked_mutex end_locked_count)

lemma end_resume_inv:
  assumes i: "inv n s" and t: "t < length (pcs s)" and pc: "pcs s ! t = Woken"
    and r: "end_resume t s = Some s'"
  shows "inv n s'"
proof -
  from r have free: "m s = None" by (simp add: end_resume_def split: option.splits)
  from i have sh: "shape_ok n s" and mu: "mutex_rel (m s) (pcs s)" and c: "count_ok s"
    by (simp_all add: inv_def mutex_ok_def)
  from pc have aw: "away (pcs s ! t)" by (simp add: away_def)
  have leave: "Suc (length (filter away ((pcs s)[t := End_85]))) = length (filter away (pcs s))"
    using t aw by (simp add: count_leave away_def)
  have mu': "mutex_rel (Some t) ((pcs s)[t := End_85])"
    using mu free t by (auto intro!: mutex_rel_acquire simp: holds_mutex_def)
  show ?thesis
  proof (cases "done s")
    case True
    with r free have s': "s' = s\<lparr>m := Some t, pcs := (pcs s)[t := End_85]\<rparr>"
      by (simp add: end_resume_def goto_def Let_def)
    from c True have "Parked \<notin> set ((pcs s)[t := End_85])"
      by (auto simp: count_ok_def dest!: parked_updateD)
    with c True sh mu' show ?thesis
      by (simp add: s' inv_def shape_ok_def mutex_ok_def count_ok_def)
  next
    case False
    with r free have s': "s' = s\<lparr>m := Some t, numactive := numactive s + 1,
        pcs := (pcs s)[t := End_85]\<rparr>"
      by (simp add: end_resume_def goto_def Let_def)
    from c False have sum: "unat (numactive s) + length (filter away (pcs s)) = length (pcs s)"
      by (simp add: count_ok_def)
    from sh have n: "length (pcs s) = n" "n < 2 ^ 64" by (simp_all add: shape_ok_def)
    from sum leave have "unat (numactive s) < n" using n by simp
    from unat_inc [OF this n(2)] have "unat (numactive s + 1) = Suc (unat (numactive s))" .
    with sum leave False sh mu' show ?thesis
      by (simp add: s' inv_def shape_ok_def mutex_ok_def count_ok_def)
  qed
qed

lemma away_not_parked: "\<not> away p \<Longrightarrow> p \<noteq> Parked"
  by (auto simp: away_def)

lemma local_step_inv:
  assumes i: "inv n s" and t: "t < length (pcs s)"
    and old: "\<not> holds_mutex (pcs s ! t)" "\<not> away (pcs s ! t)"
    and new: "\<not> holds_mutex p" "\<not> away p"
    and same: "pcs s' = (pcs s)[t := p]" "m s' = m s" "numactive s' = numactive s"
      "done s' = done s" "numcpus s' = numcpus s" "length (sleeping s') = length (sleeping s)"
      "length (ret s') = length (ret s)"
  shows "inv n s'"
proof -
  have "shape_ok n s'" using i same by (simp add: inv_def shape_ok_def)
  moreover have "mutex_ok s'"
    using i t old new same by (simp add: inv_def mutex_ok_def mutex_rel_outside)
  moreover have "length (filter away (pcs s')) = length (filter away (pcs s))"
    using t old new same by (simp add: count_same)
  moreover have "Parked \<notin> set (pcs s) \<Longrightarrow> Parked \<notin> set (pcs s')"
    using same(1) away_not_parked [OF new(2)] by (auto dest!: parked_updateD)
  ultimately show ?thesis
    using i same by (simp add: inv_def count_ok_def)
qed

lemma unlock_step_inv:
  assumes i: "inv n s" and t: "t < length (pcs s)"
    and old: "holds_mutex (pcs s ! t)"
    and new: "\<not> holds_mutex p" "\<not> away p"
  shows "inv n (goto t p (s\<lparr>m := None\<rparr>))"
proof -
  let ?s' = "goto t p (s\<lparr>m := None\<rparr>)"
  from old have na: "\<not> away (pcs s ! t)" by (auto simp: holds_mutex_def away_def)
  have "shape_ok n ?s'" using i by (simp add: inv_def shape_ok_def goto_def)
  moreover have "mutex_ok ?s'"
    using i t old new mutex_rel_release [of "m s" "pcs s" t p]
    by (simp add: inv_def mutex_ok_def goto_def)
  moreover have "length (filter away (pcs ?s')) = length (filter away (pcs s))"
    using t na new by (simp add: count_same goto_def)
  moreover have "Parked \<notin> set (pcs s) \<Longrightarrow> Parked \<notin> set (pcs ?s')"
    using away_not_parked [OF new(2)] by (auto simp: goto_def dest!: parked_updateD)
  ultimately show ?thesis
    using i by (simp add: inv_def count_ok_def goto_def)
qed

lemma end_inv:
  assumes i: "inv n s" and t: "t < length (pcs s)"
    and e: "end_sleep_critical_section t s = Some s'"
  shows "inv n s'"
proof (cases "pcs s ! t")
  case Critical
  with e have "s' = end_locked t s" by (simp add: end_sleep_critical_section_def)
  with i t Critical show ?thesis by (simp add: end_locked_inv)
next
  case End_54
  with e have "s' = goto t End_55 (s\<lparr>m := None\<rparr>)"
    by (simp add: end_sleep_critical_section_def)
  with unlock_step_inv [OF i t, of End_55] End_54 show ?thesis
    by (simp add: holds_mutex_def away_def)
next
  case End_55
  with e have "s' = goto t End_56 (s\<lparr>trying_to_sleep := trying_to_sleep s - 1\<rparr>)"
    by (simp add: end_sleep_critical_section_def)
  with local_step_inv [OF i t, of End_56 s'] End_55 show ?thesis
    by (simp add: holds_mutex_def away_def goto_def)
next
  case End_56
  with e have "s' = goto t Active
      (s\<lparr>sleeping := (sleeping s)[t := 0], ret := (ret s)[t := Some True]\<rparr>)"
    by (simp add: end_sleep_critical_section_def)
  with local_step_inv [OF i t, of Active s'] End_56 show ?thesis
    by (simp add: holds_mutex_def away_def goto_def)
next
  case Woken
  with e have "end_resume t s = Some s'" by (simp add: end_sleep_critical_section_def)
  with i t Woken show ?thesis by (rule end_resume_inv)
next
  case End_85
  with e have "s' = goto t End_86 (s\<lparr>m := None\<rparr>)"
    by (simp add: end_sleep_critical_section_def)
  with unlock_step_inv [OF i t, of End_86] End_85 show ?thesis
    by (simp add: holds_mutex_def away_def)
next
  case End_86
  with e have "s' = goto t End_87 (s\<lparr>trying_to_sleep := trying_to_sleep s - 1\<rparr>)"
    by (simp add: end_sleep_critical_section_def)
  with local_step_inv [OF i t, of End_87 s'] End_86 show ?thesis
    by (simp add: holds_mutex_def away_def goto_def)
next
  case End_87
  with e have "s' = goto t End_88 (s\<lparr>sleeping := (sleeping s)[t := 0]\<rparr>)"
    by (simp add: end_sleep_critical_section_def)
  with local_step_inv [OF i t, of End_88 s'] End_87 show ?thesis
    by (simp add: holds_mutex_def away_def goto_def)
next
  case End_88
  with e have "s' = goto t Active (s\<lparr>ret := (ret s)[t := Some (done s)]\<rparr>)"
    by (simp add: end_sleep_critical_section_def)
  with local_step_inv [OF i t, of Active s'] End_88 show ?thesis
    by (simp add: holds_mutex_def away_def goto_def)
qed (use e in \<open>simp_all add: end_sleep_critical_section_def\<close>)

lemma step_inv: "inv n s \<Longrightarrow> step e s = Some s' \<Longrightarrow> inv n s'"
proof (cases e)
  case (Begin t)
  assume "inv n s" "step e s = Some s'"
  with Begin show ?thesis
    by (auto simp: inv_def in_range_def split: if_splits
        intro: begin_shape begin_mutex begin_count)
next
  case (Cancel t)
  assume "inv n s" "step e s = Some s'"
  with Cancel show ?thesis
    by (auto simp: inv_def in_range_def split: if_splits
        intro: cancel_shape cancel_mutex cancel_count)
next
  case (End t)
  assume "inv n s" "step e s = Some s'"
  with End show ?thesis
    by (auto simp: in_range_def split: if_splits intro: end_inv)
next
  case New_job
  assume "inv n s" "step e s = Some s'"
  with New_job show ?thesis by (auto intro: new_job_inv)
next
  case (New_job_hint h)
  assume "inv n s" "step e s = Some s'"
  with New_job_hint show ?thesis by (auto split: if_splits intro: new_job_hint_inv)
next
  case (Spurious_wakeup t)
  assume "inv n s" "step e s = Some s'"
  with Spurious_wakeup show ?thesis
    by (auto simp: in_range_def split: if_splits intro: spurious_inv)
qed

lemma run_inv: "inv n s \<Longrightarrow> run es s = Some s' \<Longrightarrow> inv n s'"
  by (induction es arbitrary: s) (auto split: option.splits dest: step_inv)

lemma clear_flags_replicate: "clear_flags k (replicate k 0) = replicate k 0"
  using clear_flags_all [of "replicate k 0"] by simp

lemma unat_of_nat_small: "k < 2 ^ 64 \<Longrightarrow> unat (of_nat k :: 64 word) = k"
  by (simp add: unat_of_nat)

lemma inv_reset:
  assumes "quiescent s"
  shows "inv (length (sleeping s)) (reset s)"
proof -
  from assms have q: "m s = None" "length (pcs s) = length (sleeping s)"
    "\<forall>p \<in> set (pcs s). p = Active" "length (sleeping s) < 2 ^ 64"
    "length (ret s) = length (sleeping s)"
    by (simp_all add: quiescent_def list_all_iff)
  have f: "filter away (pcs s) = []"
    using q(3) by (auto simp: filter_empty_conv away_def)
  have "shape_ok (length (sleeping s)) (reset s)"
    using q by (simp add: shape_ok_def reset_def clear_flags_all)
  moreover have "\<forall>u < length (pcs s). \<not> holds_mutex (pcs s ! u)"
    using q(3) by (auto simp: holds_mutex_def dest!: nth_mem)
  then have "mutex_ok (reset s)"
    using q by (simp add: mutex_ok_def mutex_rel_def reset_def)
  moreover have "count_ok (reset s)"
    using q f unat_of_nat_small [OF q(4)] by (simp add: count_ok_def reset_def)
  ultimately show ?thesis by (simp add: inv_def)
qed

lemma new_is_reset: "reset (new_shared_termination ncpus) = new_shared_termination ncpus"
  by (simp add: reset_def new_shared_termination_def clear_flags_replicate)

lemma unat_less_64: "unat (x :: 64 word) < 2 ^ 64"
  using unsigned_less [of x, where 'a = nat] by simp

lemma new_quiescent: "quiescent (new_shared_termination ncpus)"
  using unat_less_64 [of ncpus]
  by (simp add: quiescent_def new_shared_termination_def clear_flags_replicate list_all_iff)

lemma inv_new: "inv (unat ncpus) (new_shared_termination ncpus)"
proof -
  have "length (sleeping (new_shared_termination ncpus)) = unat ncpus"
    by (simp add: new_shared_termination_def clear_flags_replicate)
  with inv_reset [OF new_quiescent, of ncpus] show ?thesis
    by (simp add: new_is_reset)
qed

lemma inv_bound: "inv n s \<Longrightarrow> unat (numactive s) \<le> n"
  by (auto simp: inv_def count_ok_def shape_ok_def split: if_splits)

lemmas step_defs = in_range_def begin_sleep_critical_section_def cancel_sleep_critical_section_def
  end_sleep_critical_section_def end_locked_def end_resume_def new_job_def new_job_hint_def
  new_job_locked_def goto_def cond_wait_def cond_broadcast_def wake_def Let_def


lemma word_dec_zero: "(x - 1 = 0) = (x = (1 :: 64 word))"
  by auto

lemma done_stable_step: "step e s = Some s' \<Longrightarrow> done s \<Longrightarrow> done s'"
  by (cases e) (auto simp: step_defs split: if_splits pc.splits option.splits)

lemma done_stable_run: "run es s = Some s' \<Longrightarrow> done s \<Longrightarrow> done s'"
  by (induction es arbitrary: s) (auto split: option.splits dest: done_stable_step)

lemma done_rise:
  "step e s = Some s' \<Longrightarrow> \<not> done s \<Longrightarrow> done s' \<Longrightarrow>
   \<exists>t. e = End t \<and> t < length (pcs s) \<and> pcs s ! t = Critical \<and> numactive s = 1 \<and>
       numactive s' = 0 \<and> m s' = m s"
  by (cases e) (auto simp: step_defs word_dec_zero split: if_splits pc.splits option.splits)

lemma declare_run:
  assumes t: "t < length (pcs s)" "t < length (sleeping s)" "t < length (ret s)"
    and pc: "pcs s ! t = Critical" and nd: "\<not> done s" and one: "numactive s = 1"
  shows "\<exists>s1 s2. step (End t) s = Some s1 \<and> numactive s1 = 0 \<and> done s1 \<and> m s1 = m s \<and>
      pcs s1 = (map wake (pcs s))[t := End_85] \<and> Parked \<notin> set (pcs s1) \<and>
      run [End t, End t, End t, End t] s1 = Some s2 \<and>
      numactive s2 = 0 \<and> done s2 \<and> ret s2 ! t = Some True \<and> pcs s2 ! t = Active"
proof -
  let ?a = "goto t End_85 (cond_broadcast (s\<lparr>numactive := numactive s - 1, done := True\<rparr>))"
  have s1: "step (End t) s = Some ?a"
    using t pc nd one by (simp add: step_defs)
  have p: "Parked \<notin> set (pcs ?a)"
    using no_parked_wake [of "pcs s"]
    by (auto simp: goto_def cond_broadcast_def dest!: parked_updateD)
  have r: "run [End t, End t, End t, End t] ?a =
      Some (?a\<lparr>m := None, trying_to_sleep := trying_to_sleep s - 1,
               sleeping := (sleeping s)[t := 0], ret := (ret s)[t := Some True],
               pcs := (map wake (pcs s))[t := Active]\<rparr>)"
    using t by (simp add: step_defs)
  show ?thesis
    using s1 p r t one by (simp add: goto_def cond_broadcast_def)
qed


text \<open>
  C5. The active-worker counter stays in range. In every state that the workers reach
  from a freshly constructed detector, and in every state that they reach from a
  detector reset at rest, the value returned by \<^verbatim>\<open>num_active()\<close>, read as an unsigned
  number, is at most the worker count \<open>N\<close> fixed at construction or reset (it never
  wraps around below 0), and \<open>numcpus\<close> still holds \<open>N\<close>.
\<close>

theorem num_active_in_range:
  "(run es (new_shared_termination ncpus) = Some s \<longrightarrow>
      unat (num_active s) \<le> unat ncpus \<and> numcpus s = ncpus) \<and>
   (quiescent old \<and> run es (reset old) = Some s \<longrightarrow>
      unat (num_active s) \<le> length (sleeping old) \<and>
      numcpus s = of_nat (length (sleeping old)))"
proof (intro conjI impI)
  assume r: "run es (new_shared_termination ncpus) = Some s"
  from run_inv [OF inv_new r] have i: "inv (unat ncpus) s" .
  from inv_bound [OF i] show "unat (num_active s) \<le> unat ncpus"
    by (simp add: num_active_def)
  from i show "numcpus s = ncpus" by (simp add: inv_def shape_ok_def)
next
  assume "quiescent old \<and> run es (reset old) = Some s"
  then have q: "quiescent old" and r: "run es (reset old) = Some s" by simp_all
  from run_inv [OF inv_reset [OF q] r] have i: "inv (length (sleeping old)) s" .
  from inv_bound [OF i] show "unat (num_active s) \<le> length (sleeping old)"
    by (simp add: num_active_def)
  from i show "numcpus s = of_nat (length (sleeping old))" by (simp add: inv_def shape_ok_def)
qed


theorem num_active_in_range_witness:
  "run [Begin 0, Begin 0, Begin 0, End 0, Begin 1, Begin 1, Begin 1, End 1]
     (new_shared_termination 2) =
   Some \<lparr>numactive = 0, numcpus = 2, trying_to_sleep = 2, sleeping = [1, 1],
     done = True, m = Some 1, pcs = [Woken, End_85], ret = [None, None]\<rparr> \<and>
   unat (num_active \<lparr>numactive = 0, numcpus = 2, trying_to_sleep = 2, sleeping = [1, 1],
     done = True, m = Some 1, pcs = [Woken, End_85], ret = [None, None]\<rparr>) \<le> unat (2 :: size_t) \<and>
   quiescent \<lparr>numactive = 0, numcpus = 2, trying_to_sleep = 0, sleeping = [0, 0],
     done = True, m = None, pcs = [Active, Active], ret = [Some True, Some True]\<rparr> \<and>
   run [Begin 0, Begin 0, Begin 0, End 0]
     (reset \<lparr>numactive = 0, numcpus = 2, trying_to_sleep = 0, sleeping = [0, 0],
        done = True, m = None, pcs = [Active, Active], ret = [Some True, Some True]\<rparr>) =
   Some \<lparr>numactive = 1, numcpus = 2, trying_to_sleep = 1, sleeping = [1, 0],
     done = False, m = None, pcs = [Parked, Active], ret = [Some True, Some True]\<rparr> \<and>
   unat (num_active \<lparr>numactive = 1, numcpus = 2, trying_to_sleep = 1, sleeping = [1, 0],
     done = False, m = None, pcs = [Parked, Active], ret = [Some True, Some True]\<rparr>) \<le> 2"
proof -
  let ?es = "[Begin 0, Begin 0, Begin 0, End 0, Begin 1, Begin 1, Begin 1, End 1]"
  let ?s = "\<lparr>numactive = 0, numcpus = 2, trying_to_sleep = 2, sleeping = [1, 1],
     done = True, m = Some 1, pcs = [Woken, End_85], ret = [None, None]\<rparr>"
  let ?old = "\<lparr>numactive = 0, numcpus = 2, trying_to_sleep = 0, sleeping = [0, 0],
     done = True, m = None, pcs = [Active, Active], ret = [Some True, Some True]\<rparr>"
  let ?fs = "[Begin 0, Begin 0, Begin 0, End 0]"
  let ?u = "\<lparr>numactive = 1, numcpus = 2, trying_to_sleep = 1, sleeping = [1, 0],
     done = False, m = None, pcs = [Parked, Active], ret = [Some True, Some True]\<rparr>"
  have r1: "run ?es (new_shared_termination 2) = Some ?s" by code_simp
  have q: "quiescent ?old" by (simp add: quiescent_def)
  have r2: "run ?fs (reset ?old) = Some ?u" by code_simp
  have a: "unat (num_active ?s) \<le> unat (2 :: size_t)"
    using num_active_in_range [where es = ?es and ncpus = 2 and s = ?s] r1 by simp
  have b: "unat (num_active ?u) \<le> length (sleeping ?old)"
    using num_active_in_range [where es = ?fs and old = ?old and s = ?u] q r2 by simp
  from r1 a q r2 b show ?thesis by simp
qed

text \<open>
  C1. In every state reached from a freshly constructed detector: a step that turns
  \<open>done\<close> from false to true is a step of \<^verbatim>\<open>end_sleep_critical_section\<close> by a worker
  that is in the critical section, holds the mutex before and after the step, and has
  brought \<open>numactive\<close> from 1 to 0. In particular, when \<open>done\<close> is false and \<open>numactive\<close>
  is 1 and worker \<open>t\<close> in the critical section calls \<^verbatim>\<open>end_sleep_critical_section\<close>,
  the first step decrements \<open>numactive\<close> to 0, sets \<open>done\<close> and wakes every parked
  worker, all under the mutex, and the call then runs to its end and returns true.
\<close>

theorem done_only_at_zero_under_lock:
  assumes "run es (new_shared_termination ncpus) = Some s"
  shows "(step e s = Some s' \<and> \<not> done s \<and> done s' \<longrightarrow>
            (\<exists>t. e = End t \<and> pcs s ! t = Critical \<and> m s = Some t \<and> m s' = Some t \<and>
                 numactive s = 1 \<and> numactive s' = 0)) \<and>
         (t < length (pcs s) \<and> pcs s ! t = Critical \<and> \<not> done s \<and> numactive s = 1 \<longrightarrow>
            (\<exists>s1 s2. step (End t) s = Some s1 \<and> numactive s1 = 0 \<and> done s1 \<and>
                 m s1 = Some t \<and> pcs s1 = (map wake (pcs s))[t := End_85] \<and>
                 Parked \<notin> set (pcs s1) \<and>
                 run [End t, End t, End t, End t] s1 = Some s2 \<and>
                 numactive s2 = 0 \<and> done s2 \<and> ret s2 ! t = Some True \<and>
                 pcs s2 ! t = Active))"
proof -
  from run_inv [OF inv_new assms] have i: "inv (unat ncpus) s" .
  then have sh: "length (sleeping s) = length (pcs s)" "length (ret s) = length (pcs s)"
    and mu: "mutex_rel (m s) (pcs s)"
    by (simp_all add: inv_def shape_ok_def mutex_ok_def)
  have own: "\<And>u. u < length (pcs s) \<Longrightarrow> pcs s ! u = Critical \<Longrightarrow> m s = Some u"
    using mutex_rel_owner [OF mu] by (simp add: holds_mutex_def)
  have first: "step e s = Some s' \<and> \<not> done s \<and> done s' \<longrightarrow>
      (\<exists>t. e = End t \<and> pcs s ! t = Critical \<and> m s = Some t \<and> m s' = Some t \<and>
           numactive s = 1 \<and> numactive s' = 0)"
  proof
    assume a: "step e s = Some s' \<and> \<not> done s \<and> done s'"
    then obtain u where u: "e = End u" "u < length (pcs s)" "pcs s ! u = Critical"
      "numactive s = 1" "numactive s' = 0" "m s' = m s"
      using done_rise [of e s s'] by blast
    with own [of u] show "\<exists>t. e = End t \<and> pcs s ! t = Critical \<and> m s = Some t \<and>
        m s' = Some t \<and> numactive s = 1 \<and> numactive s' = 0"
      by simp
  qed
  have second: "t < length (pcs s) \<and> pcs s ! t = Critical \<and> \<not> done s \<and> numactive s = 1 \<longrightarrow>
      (\<exists>s1 s2. step (End t) s = Some s1 \<and> numactive s1 = 0 \<and> done s1 \<and>
           m s1 = Some t \<and> pcs s1 = (map wake (pcs s))[t := End_85] \<and>
           Parked \<notin> set (pcs s1) \<and>
           run [End t, End t, End t, End t] s1 = Some s2 \<and>
           numactive s2 = 0 \<and> done s2 \<and> ret s2 ! t = Some True \<and>
           pcs s2 ! t = Active)"
  proof
    assume a: "t < length (pcs s) \<and> pcs s ! t = Critical \<and> \<not> done s \<and> numactive s = 1"
    with own [of t] have o: "m s = Some t" by simp
    from a sh declare_run [of t s] o show "\<exists>s1 s2. step (End t) s = Some s1 \<and> numactive s1 = 0 \<and> done s1 \<and>
           m s1 = Some t \<and> pcs s1 = (map wake (pcs s))[t := End_85] \<and>
           Parked \<notin> set (pcs s1) \<and>
           run [End t, End t, End t, End t] s1 = Some s2 \<and>
           numactive s2 = 0 \<and> done s2 \<and> ret s2 ! t = Some True \<and>
           pcs s2 ! t = Active"
      by simp
  qed
  from first second show ?thesis by (rule conjI)
qed

theorem done_only_at_zero_under_lock_witness:
  "run [Begin 0, Begin 0, Begin 0, End 0, Begin 1, Begin 1, Begin 1]
     (new_shared_termination 2) =
   Some \<lparr>numactive = 1, numcpus = 2, trying_to_sleep = 2, sleeping = [1, 1],
     done = False, m = Some 1, pcs = [Parked, Critical], ret = [None, None]\<rparr> \<and>
   step (End 1)
     \<lparr>numactive = 1, numcpus = 2, trying_to_sleep = 2, sleeping = [1, 1],
      done = False, m = Some 1, pcs = [Parked, Critical], ret = [None, None]\<rparr> =
   Some \<lparr>numactive = 0, numcpus = 2, trying_to_sleep = 2, sleeping = [1, 1],
     done = True, m = Some 1, pcs = [Woken, End_85], ret = [None, None]\<rparr> \<and>
   (\<exists>s2. run [End 1, End 1, End 1, End 1]
       \<lparr>numactive = 0, numcpus = 2, trying_to_sleep = 2, sleeping = [1, 1],
        done = True, m = Some 1, pcs = [Woken, End_85], ret = [None, None]\<rparr> = Some s2 \<and>
      numactive s2 = 0 \<and> done s2 \<and> ret s2 ! 1 = Some True \<and> pcs s2 ! 1 = Active)"
proof -
  let ?a = "\<lparr>numactive = 1, numcpus = 2, trying_to_sleep = 2, sleeping = [1, 1],
     done = False, m = Some 1, pcs = [Parked, Critical], ret = [None, None]\<rparr>"
  let ?b = "\<lparr>numactive = 0, numcpus = 2, trying_to_sleep = 2, sleeping = [1, 1],
     done = True, m = Some 1, pcs = [Woken, End_85], ret = [None, None]\<rparr>"
  have r: "run [Begin 0, Begin 0, Begin 0, End 0, Begin 1, Begin 1, Begin 1]
     (new_shared_termination 2) = Some ?a"
    by code_simp
  have st: "step (End 1) ?a = Some ?b"
    by code_simp
  from done_only_at_zero_under_lock [OF r, where e = "End 1" and s' = ?b and t = 1] st r
  show ?thesis by simp
qed

lemma resume_run:
  assumes t: "t < length (pcs s)" "t < length (sleeping s)" "t < length (ret s)"
    and pc: "pcs s ! t = Woken" and nd: "\<not> done s" and free: "m s = None"
  shows "run [End t, End t, End t, End t, End t] s =
     Some (s\<lparr>numactive := numactive s + 1, trying_to_sleep := trying_to_sleep s - 1,
             sleeping := (sleeping s)[t := 0], ret := (ret s)[t := Some False],
             pcs := (pcs s)[t := Active]\<rparr>)"
  using assms by (simp add: step_defs)

text \<open>
  C6. When \<open>done\<close> is already true and a worker in the critical section calls
  \<^verbatim>\<open>end_sleep_critical_section\<close>, the call runs its four steps without waiting, returns
  true and releases the mutex, and \<^verbatim>\<open>num_active()\<close> is the same after each of the steps.
\<close>

theorem end_when_done_returns_true:
  assumes "t < length (pcs s)" "t < length (sleeping s)" "t < length (ret s)"
    and "pcs s ! t = Critical" and "done s"
  shows "\<exists>s1 s2 s3 s4.
      step (End t) s = Some s1 \<and> step (End t) s1 = Some s2 \<and>
      step (End t) s2 = Some s3 \<and> step (End t) s3 = Some s4 \<and>
      num_active s1 = num_active s \<and> num_active s2 = num_active s \<and>
      num_active s3 = num_active s \<and> num_active s4 = num_active s \<and>
      pcs s4 ! t = Active \<and> ret s4 ! t = Some True \<and> m s4 = None"
  using assms by (simp add: step_defs num_active_def)

theorem end_when_done_returns_true_witness:
  "\<exists>s1 s2 s3 s4.
      step (End 0) \<lparr>numactive = 0, numcpus = 2, trying_to_sleep = 1, sleeping = [1, 0],
         done = True, m = Some 0, pcs = [Critical, Active], ret = [None, Some True]\<rparr> = Some s1 \<and>
      step (End 0) s1 = Some s2 \<and> step (End 0) s2 = Some s3 \<and> step (End 0) s3 = Some s4 \<and>
      num_active s1 = 0 \<and> num_active s2 = 0 \<and> num_active s3 = 0 \<and> num_active s4 = 0 \<and>
      pcs s4 ! 0 = Active \<and> ret s4 ! 0 = Some True \<and> m s4 = None"
  using end_when_done_returns_true [of 0 "\<lparr>numactive = 0, numcpus = 2, trying_to_sleep = 1,
     sleeping = [1, 0], done = True, m = Some 0, pcs = [Critical, Active],
     ret = [None, Some True]\<rparr>"]
  by (simp add: num_active_def)

text \<open>
  C7. From every prior state, \<^verbatim>\<open>reset()\<close> establishes \<open>num_active = numcpus\<close> (both the
  size of \<open>sleeping\<close>), \<open>done = false\<close>, \<open>trying_to_sleep = 0\<close> and \<open>sleeping[i] = 0\<close> for
  every worker id \<open>i\<close>.
\<close>

theorem reset_establishes_initial_state:
  "num_active (reset s) = numcpus (reset s) \<and>
   numcpus (reset s) = of_nat (length (sleeping s)) \<and>
   \<not> done (reset s) \<and>
   trying_to_sleep (reset s) = 0 \<and>
   length (sleeping (reset s)) = length (sleeping s) \<and>
   (\<forall>i < length (sleeping (reset s)). sleeping (reset s) ! i = 0)"
  by (simp add: reset_def num_active_def clear_flags_all)

theorem reset_establishes_initial_state_witness:
  "reset \<lparr>numactive = 0, numcpus = 2, trying_to_sleep = 2, sleeping = [1, 1],
      done = True, m = Some 1, pcs = [Woken, End_85], ret = [None, None]\<rparr> =
   \<lparr>numactive = 2, numcpus = 2, trying_to_sleep = 0, sleeping = [0, 0],
      done = False, m = Some 1, pcs = [Woken, End_85], ret = [None, None]\<rparr> \<and>
   num_active (reset \<lparr>numactive = 0, numcpus = 2, trying_to_sleep = 2, sleeping = [1, 1],
      done = True, m = Some 1, pcs = [Woken, End_85], ret = [None, None]\<rparr>) = 2 \<and>
   sleeping (reset \<lparr>numactive = 0, numcpus = 2, trying_to_sleep = 2,
      sleeping = [1, 1], done = True, m = Some 1, pcs = [Woken, End_85],
      ret = [None, None]\<rparr>) ! 0 = 0 \<and>
   sleeping (reset \<lparr>numactive = 0, numcpus = 2, trying_to_sleep = 2,
      sleeping = [1, 1], done = True, m = Some 1, pcs = [Woken, End_85],
      ret = [None, None]\<rparr>) ! 1 = 0"
proof -
  let ?a = "\<lparr>numactive = 0, numcpus = 2, trying_to_sleep = 2, sleeping = [1, 1],
      done = True, m = Some 1, pcs = [Woken, End_85], ret = [None, None]\<rparr>"
  have e: "reset ?a = \<lparr>numactive = 2, numcpus = 2, trying_to_sleep = 0, sleeping = [0, 0],
      done = False, m = Some 1, pcs = [Woken, End_85], ret = [None, None]\<rparr>"
    by code_simp
  from reset_establishes_initial_state [of ?a] show ?thesis
    unfolding e by (simp add: num_active_def)
qed

text \<open>
  C3, as amended. Once \<open>done\<close> is true, every step of
  \<^verbatim>\<open>begin_sleep_critical_section\<close>, \<^verbatim>\<open>cancel_sleep_critical_section\<close>,
  \<^verbatim>\<open>end_sleep_critical_section\<close> and \<^verbatim>\<open>new_job\<close>, and every sequence of such steps, leaves
  it true; \<^verbatim>\<open>reset()\<close> sets it to false from every state.
\<close>

theorem done_kept_by_protocol_cleared_by_reset:
  "(done s \<and> step e s = Some s' \<longrightarrow> done s') \<and>
   (done s \<and> run es s = Some s'' \<longrightarrow> done s'') \<and>
   \<not> done (reset s)"
  using done_stable_step [of e s s'] done_stable_run [of es s s'']
  by (auto simp: reset_def)

theorem done_kept_by_protocol_cleared_by_reset_witness:
  "done \<lparr>numactive = 0, numcpus = 1, trying_to_sleep = 1, sleeping = [1],
      done = True, m = Some 0, pcs = [End_85], ret = [None]\<rparr> \<and>
   run [End 0, End 0, End 0, End 0, New_job, Begin 0]
     \<lparr>numactive = 0, numcpus = 1, trying_to_sleep = 1, sleeping = [1],
      done = True, m = Some 0, pcs = [End_85], ret = [None]\<rparr> =
   Some \<lparr>numactive = 0, numcpus = 1, trying_to_sleep = 1, sleeping = [0],
      done = True, m = None, pcs = [Begin_41], ret = [Some True]\<rparr> \<and>
   done \<lparr>numactive = 0, numcpus = 1, trying_to_sleep = 1, sleeping = [0],
      done = True, m = None, pcs = [Begin_41], ret = [Some True]\<rparr>"
proof -
  let ?a = "\<lparr>numactive = 0, numcpus = 1, trying_to_sleep = 1, sleeping = [1],
      done = True, m = Some 0, pcs = [End_85], ret = [None]\<rparr>"
  let ?b = "\<lparr>numactive = 0, numcpus = 1, trying_to_sleep = 1, sleeping = [0],
      done = True, m = None, pcs = [Begin_41], ret = [Some True]\<rparr>"
  have r: "run [End 0, End 0, End 0, End 0, New_job, Begin 0] ?a = Some ?b"
    by code_simp
  have d: "done ?a" by simp
  from done_kept_by_protocol_cleared_by_reset
    [where s = ?a and es = "[End 0, End 0, End 0, End 0, New_job, Begin 0]" and s'' = ?b] d r
  show ?thesis by simp
qed

text \<open>
  C3 as stated fails: after a run of one worker to termination \<open>done\<close> is true, and
  \<^verbatim>\<open>reset()\<close> sets it back to false.
\<close>

theorem done_monotone_counterexample:
  "run [Begin 0, Begin 0, Begin 0, End 0, End 0, End 0, End 0, End 0]
     (new_shared_termination 1) =
     Some \<lparr>numactive = 0, numcpus = 1, trying_to_sleep = 0, sleeping = [0],
       done = True, m = None, pcs = [Active], ret = [Some True]\<rparr> \<and>
   done \<lparr>numactive = 0, numcpus = 1, trying_to_sleep = 0, sleeping = [0],
       done = True, m = None, pcs = [Active], ret = [Some True]\<rparr> \<and>
   \<not> done (reset \<lparr>numactive = 0, numcpus = 1, trying_to_sleep = 0, sleeping = [0],
       done = True, m = None, pcs = [Active], ret = [Some True]\<rparr>)"
proof -
  have "run [Begin 0, Begin 0, Begin 0, End 0, End 0, End 0, End 0, End 0]
     (new_shared_termination 1) =
     Some \<lparr>numactive = 0, numcpus = 1, trying_to_sleep = 0, sleeping = [0],
       done = True, m = None, pcs = [Active], ret = [Some True]\<rparr>"
    by code_simp
  then show ?thesis by (simp add: reset_def)
qed

lemma hinted_update:
  "t < length xs \<Longrightarrow>
   length (filter hinted (xs[t := x])) + (if hinted (xs ! t) then 1 else 0)
     = length (filter hinted xs) + (if hinted x then 1 else 0)"
  by (rule filter_update_count)

lemma hinted_wake: "length (filter hinted (map wake xs)) = length (filter hinted xs)"
  by (induction xs) (auto simp: hinted_def wake_def)

lemma hinted_less: "t < length xs \<Longrightarrow> \<not> hinted (xs ! t) \<Longrightarrow> length (filter hinted xs) < length xs"
  by (rule length_filter_less [of "xs ! t"]) simp_all

lemma hinted_pos: "t < length xs \<Longrightarrow> hinted (xs ! t) \<Longrightarrow> 0 < length (filter hinted xs)"
  by (metis filter_empty_conv length_greater_0_conv nth_mem)

lemma hint_ok_move:
  assumes h: "hint_ok s" and t: "t < length (pcs s)"
    and p: "hinted p = hinted (pcs s ! t)" "flagged p = flagged (pcs s ! t)"
    and same: "pcs s' = (pcs s)[t := p]" "sleeping s' = sleeping s"
      "trying_to_sleep s' = trying_to_sleep s"
  shows "hint_ok s'"
proof -
  have "length (filter hinted (pcs s')) = length (filter hinted (pcs s))"
    using hinted_update [OF t, of p] p(1) same(1) by (simp split: if_splits)
  moreover have "\<forall>u < length (pcs s). flagged (pcs s' ! u) = flagged (pcs s ! u)"
    using t p(2) same(1) by (simp add: nth_list_update)
  ultimately show ?thesis using h same by (simp add: hint_ok_def)
qed

lemma hint_ok_inc:
  assumes h: "hint_ok s" and t: "t < length (pcs s)"
    and old: "\<not> hinted (pcs s ! t)" "\<not> flagged (pcs s ! t)" and new: "hinted p" "\<not> flagged p"
  shows "hint_ok (goto t p (s\<lparr>trying_to_sleep := trying_to_sleep s + 1\<rparr>))"
proof -
  have c: "length (filter hinted ((pcs s)[t := p])) = Suc (length (filter hinted (pcs s)))"
    using hinted_update [OF t, of p] old new by simp
  have "unat (trying_to_sleep s) < length (pcs s)"
    using h hinted_less [OF t old(1)] by (simp add: hint_ok_def)
  moreover have "length (pcs s) < 2 ^ 64" using h by (simp add: hint_ok_def)
  ultimately have "unat (trying_to_sleep s + 1) = Suc (unat (trying_to_sleep s))"
    by (rule unat_inc)
  moreover have "\<forall>u < length (pcs s). flagged ((pcs s)[t := p] ! u) = flagged (pcs s ! u)"
    using t old new by (simp add: nth_list_update)
  ultimately show ?thesis using h c by (simp add: hint_ok_def goto_def)
qed

lemma hint_ok_dec:
  assumes h: "hint_ok s" and t: "t < length (pcs s)"
    and old: "hinted (pcs s ! t)" and new: "\<not> hinted p" "flagged p = flagged (pcs s ! t)"
  shows "hint_ok (goto t p (s\<lparr>trying_to_sleep := trying_to_sleep s - 1\<rparr>))"
proof -
  have c: "Suc (length (filter hinted ((pcs s)[t := p]))) = length (filter hinted (pcs s))"
    using hinted_update [OF t, of p] old new by simp
  have "0 < unat (trying_to_sleep s)"
    using h hinted_pos [OF t old] by (simp add: hint_ok_def)
  from unat_dec [OF this] have "Suc (unat (trying_to_sleep s - 1)) = unat (trying_to_sleep s)" .
  moreover have "\<forall>u < length (pcs s). flagged ((pcs s)[t := p] ! u) = flagged (pcs s ! u)"
    using t new by (simp add: nth_list_update)
  ultimately show ?thesis using h c by (simp add: hint_ok_def goto_def)
qed

lemma hint_ok_flag:
  assumes h: "hint_ok s" and t: "t < length (pcs s)"
    and p: "hinted p = hinted (pcs s ! t)" "flagged p = (v \<noteq> 0)"
    and same: "pcs s' = (pcs s)[t := p]" "sleeping s' = (sleeping s)[t := v]"
      "trying_to_sleep s' = trying_to_sleep s"
  shows "hint_ok s'"
proof -
  have "length (filter hinted (pcs s')) = length (filter hinted (pcs s))"
    using hinted_update [OF t, of p] p(1) same(1) by (simp split: if_splits)
  moreover have "\<forall>u < length (pcs s). (sleeping s' ! u \<noteq> 0) = flagged (pcs s' ! u)"
    using t h p(2) same(1,2) by (simp add: nth_list_update hint_ok_def)
  ultimately show ?thesis using h same by (simp add: hint_ok_def)
qed

lemma hinted_o_wake: "hinted \<circ> wake = hinted"
  by (auto simp: fun_eq_iff hinted_def wake_def)

lemma flagged_wake: "flagged (wake p) = flagged p"
  by (simp add: flagged_def wake_def)

lemma hint_ok_broadcast: "hint_ok s \<Longrightarrow> hint_ok (cond_broadcast s)"
  by (simp add: hint_ok_def cond_broadcast_def hinted_o_wake flagged_wake)

lemma begin_hint:
  assumes h: "hint_ok s" and t: "t < length (pcs s)"
    and b: "begin_sleep_critical_section t s = Some s'"
  shows "hint_ok s'"
proof (cases "pcs s ! t")
  case Active
  with b have "s' = goto t Begin_41 (s\<lparr>trying_to_sleep := trying_to_sleep s + 1\<rparr>)"
    by (simp add: begin_sleep_critical_section_def)
  with hint_ok_inc [OF h t, of Begin_41] Active show ?thesis
    by (simp add: hinted_def flagged_def)
next
  case Begin_41
  with b have "s' = goto t Begin_42 (s\<lparr>sleeping := (sleeping s)[t := 1]\<rparr>)"
    by (simp add: begin_sleep_critical_section_def)
  with hint_ok_flag [OF h t, of Begin_42 1 s'] Begin_41 show ?thesis
    by (simp add: hinted_def flagged_def goto_def)
next
  case Begin_42
  with b have "s' = goto t Critical (s\<lparr>m := Some t\<rparr>)"
    by (simp add: begin_sleep_critical_section_def split: option.splits)
  with hint_ok_move [OF h t, of Critical s'] Begin_42 show ?thesis
    by (simp add: hinted_def flagged_def goto_def)
qed (use b in \<open>simp_all add: begin_sleep_critical_section_def\<close>)

lemma cancel_hint:
  assumes h: "hint_ok s" and t: "t < length (pcs s)"
    and b: "cancel_sleep_critical_section t s = Some s'"
  shows "hint_ok s'"
proof (cases "pcs s ! t")
  case Critical
  with b have "s' = goto t Cancel_47 (s\<lparr>m := None\<rparr>)"
    by (simp add: cancel_sleep_critical_section_def)
  with hint_ok_move [OF h t, of Cancel_47 s'] Critical show ?thesis
    by (simp add: hinted_def flagged_def goto_def)
next
  case Cancel_47
  with b have "s' = goto t Cancel_48 (s\<lparr>sleeping := (sleeping s)[t := 0]\<rparr>)"
    by (simp add: cancel_sleep_critical_section_def)
  with hint_ok_flag [OF h t, of Cancel_48 0 s'] Cancel_47 show ?thesis
    by (simp add: hinted_def flagged_def goto_def)
next
  case Cancel_48
  with b have "s' = goto t Active (s\<lparr>trying_to_sleep := trying_to_sleep s - 1\<rparr>)"
    by (simp add: cancel_sleep_critical_section_def)
  with hint_ok_dec [OF h t, of Active] Cancel_48 show ?thesis
    by (simp add: hinted_def flagged_def)
qed (use b in \<open>simp_all add: cancel_sleep_critical_section_def\<close>)

lemma end_locked_hint:
  assumes h: "hint_ok s" and t: "t < length (pcs s)" and pc: "pcs s ! t = Critical"
  shows "hint_ok (end_locked t s)"
proof -
  have a: "hint_ok (goto t End_54 s)"
    using hint_ok_move [OF h t, of End_54 "goto t End_54 s"] pc
    by (simp add: hinted_def flagged_def goto_def)
  have b: "hint_ok (goto t End_85 (cond_broadcast (s\<lparr>numactive := x, done := True\<rparr>)))" for x
  proof -
    let ?b = "cond_broadcast (s\<lparr>numactive := x, done := True\<rparr>)"
    have "hint_ok (s\<lparr>numactive := x, done := True\<rparr>)"
      using h by (simp add: hint_ok_def)
    then have hb: "hint_ok ?b" by (rule hint_ok_broadcast)
    have tb: "t < length (pcs ?b)" "pcs ?b ! t = Critical"
      using t pc by (simp_all add: cond_broadcast_def wake_def)
    show ?thesis
      using hint_ok_move [OF hb tb(1), of End_85 "goto t End_85 ?b"] tb(2)
      by (simp add: hinted_def flagged_def goto_def)
  qed
  have c: "hint_ok (cond_wait t (s\<lparr>numactive := x\<rparr>))" for x
    using hint_ok_move [OF h t, of Parked "cond_wait t (s\<lparr>numactive := x\<rparr>)"] pc
    by (simp add: hinted_def flagged_def goto_def cond_wait_def)
  from a b c show ?thesis by (simp add: end_locked_def Let_def)
qed

lemma end_hint:
  assumes h: "hint_ok s" and t: "t < length (pcs s)"
    and e: "end_sleep_critical_section t s = Some s'"
  shows "hint_ok s'"
proof (cases "pcs s ! t")
  case Critical
  with e have "s' = end_locked t s" by (simp add: end_sleep_critical_section_def)
  with h t Critical show ?thesis by (simp add: end_locked_hint)
next
  case End_54
  with e have "s' = goto t End_55 (s\<lparr>m := None\<rparr>)"
    by (simp add: end_sleep_critical_section_def)
  with hint_ok_move [OF h t, of End_55 s'] End_54 show ?thesis
    by (simp add: hinted_def flagged_def goto_def)
next
  case End_55
  with e have "s' = goto t End_56 (s\<lparr>trying_to_sleep := trying_to_sleep s - 1\<rparr>)"
    by (simp add: end_sleep_critical_section_def)
  with hint_ok_dec [OF h t, of End_56] End_55 show ?thesis
    by (simp add: hinted_def flagged_def)
next
  case End_56
  with e have "s' = goto t Active
      (s\<lparr>sleeping := (sleeping s)[t := 0], ret := (ret s)[t := Some True]\<rparr>)"
    by (simp add: end_sleep_critical_section_def)
  with hint_ok_flag [OF h t, of Active 0 s'] End_56 show ?thesis
    by (simp add: hinted_def flagged_def goto_def)
next
  case Woken
  with e have r: "end_resume t s = Some s'" by (simp add: end_sleep_critical_section_def)
  then have "pcs s' = (pcs s)[t := End_85]" "sleeping s' = sleeping s"
    "trying_to_sleep s' = trying_to_sleep s"
    by (auto simp: end_resume_def Let_def goto_def split: option.splits if_splits)
  with hint_ok_move [OF h t, of End_85 s'] Woken show ?thesis
    by (simp add: hinted_def flagged_def)
next
  case End_85
  with e have "s' = goto t End_86 (s\<lparr>m := None\<rparr>)"
    by (simp add: end_sleep_critical_section_def)
  with hint_ok_move [OF h t, of End_86 s'] End_85 show ?thesis
    by (simp add: hinted_def flagged_def goto_def)
next
  case End_86
  with e have "s' = goto t End_87 (s\<lparr>trying_to_sleep := trying_to_sleep s - 1\<rparr>)"
    by (simp add: end_sleep_critical_section_def)
  with hint_ok_dec [OF h t, of End_87] End_86 show ?thesis
    by (simp add: hinted_def flagged_def)
next
  case End_87
  with e have "s' = goto t End_88 (s\<lparr>sleeping := (sleeping s)[t := 0]\<rparr>)"
    by (simp add: end_sleep_critical_section_def)
  with hint_ok_flag [OF h t, of End_88 0 s'] End_87 show ?thesis
    by (simp add: hinted_def flagged_def goto_def)
next
  case End_88
  with e have "s' = goto t Active (s\<lparr>ret := (ret s)[t := Some (done s)]\<rparr>)"
    by (simp add: end_sleep_critical_section_def)
  with hint_ok_move [OF h t, of Active s'] End_88 show ?thesis
    by (simp add: hinted_def flagged_def goto_def)
qed (use e in \<open>simp_all add: end_sleep_critical_section_def\<close>)

lemma new_job_locked_hint: "hint_ok s \<Longrightarrow> new_job_locked s = Some s' \<Longrightarrow> hint_ok s'"
  by (auto simp: new_job_locked_def hint_ok_broadcast split: option.splits if_splits)

lemma step_hint: "hint_ok s \<Longrightarrow> step e s = Some s' \<Longrightarrow> hint_ok s'"
proof (cases e)
  case (Begin t)
  assume "hint_ok s" "step e s = Some s'"
  with Begin show ?thesis
    by (auto simp: in_range_def split: if_splits intro: begin_hint)
next
  case (Cancel t)
  assume "hint_ok s" "step e s = Some s'"
  with Cancel show ?thesis
    by (auto simp: in_range_def split: if_splits intro: cancel_hint)
next
  case (End t)
  assume "hint_ok s" "step e s = Some s'"
  with End show ?thesis
    by (auto simp: in_range_def split: if_splits intro: end_hint)
next
  case New_job
  assume "hint_ok s" "step e s = Some s'"
  with New_job show ?thesis
    by (auto simp: new_job_def split: if_splits intro: new_job_locked_hint)
next
  case (New_job_hint h)
  assume "hint_ok s" "step e s = Some s'"
  with New_job_hint show ?thesis
    by (auto simp: new_job_hint_def split: if_splits intro: new_job_locked_hint)
next
  case (Spurious_wakeup t)
  assume a: "hint_ok s" "step e s = Some s'"
  with Spurious_wakeup have t: "t < length (pcs s)" and pc: "pcs s ! t = Parked"
    and s': "s' = goto t Woken s"
    by (auto simp: in_range_def split: if_splits)
  from hint_ok_move [OF a(1) t, of Woken s'] pc s' show ?thesis
    by (simp add: hinted_def flagged_def goto_def)
qed

lemma run_hint: "hint_ok s \<Longrightarrow> run es s = Some s' \<Longrightarrow> hint_ok s'"
  by (induction es arbitrary: s) (auto split: option.splits dest: step_hint)

lemma hint_new: "hint_ok (new_shared_termination ncpus)"
  using unat_less_64 [of ncpus]
  by (simp add: hint_ok_def new_shared_termination_def clear_flags_replicate
      hinted_def flagged_def)

lemma parked_hint:
  assumes h: "hint_ok s" and t: "t < length (pcs s)" and pc: "pcs s ! t = Parked"
  shows "0 < trying_to_sleep s" "sleeping s ! t \<noteq> 0"
proof -
  from pc have "hinted (pcs s ! t)" by (simp add: hinted_def)
  from hinted_pos [OF t this] h have "0 < unat (trying_to_sleep s)"
    by (simp add: hint_ok_def)
  then show "0 < trying_to_sleep s" by (simp add: word_greater_zero_iff unat_gt_0)
  from h t pc show "sleeping s ! t \<noteq> 0" by (simp add: hint_ok_def flagged_def)
qed

lemma parked_facts:
  assumes i: "inv n s" and t: "t < length (pcs s)" and pc: "pcs s ! t = Parked"
  shows "\<not> done s" "numactive s < numcpus s"
proof -
  from i have c: "count_ok s" and sh: "shape_ok n s" by (simp_all add: inv_def)
  from t pc have mem: "Parked \<in> set (pcs s)" by (metis nth_mem)
  with c show nd: "\<not> done s" by (auto simp: count_ok_def)
  from pc have "away (pcs s ! t)" by (simp add: away_def)
  from count_pos [OF t this] have pos: "0 < length (filter away (pcs s))" .
  from c nd sh have "unat (numactive s) + length (filter away (pcs s)) = n"
    by (simp add: count_ok_def shape_ok_def)
  with pos have "unat (numactive s) < n" by arith
  moreover from sh have "unat (numcpus s) = n"
    by (simp add: shape_ok_def unat_of_nat_small)
  ultimately show "numactive s < numcpus s" by (simp add: word_less_nat_alt)
qed

text \<open>
  C2. In a state reached from a freshly constructed detector where worker \<open>t\<close> is parked
  in \<^verbatim>\<open>cond.wait\<close> and the mutex is free for the caller of \<^verbatim>\<open>new_job\<close>: \<open>done\<close> is false
  and \<open>numactive < numcpus\<close>, so \<^verbatim>\<open>new_job()\<close> with \<open>trying_to_sleep > 0\<close>, and
  \<^verbatim>\<open>new_job(h)\<close> with the flag of \<open>h\<close> set, broadcast (and the hint is in fact positive
  and the flag of \<open>t\<close> set there); worker \<open>t\<close> is then woken, and its
  call of \<^verbatim>\<open>end_sleep_critical_section\<close> runs to its end, increments \<open>numactive\<close> and
  returns false. Conversely, in any state \<open>u\<close>, \<^verbatim>\<open>new_job()\<close> with \<open>trying_to_sleep = 0\<close> and
  \<^verbatim>\<open>new_job(h)\<close> with the flag of \<open>h\<close> clear return at once with the state unchanged, also
  when the mutex is held, where the locked path would have to wait.
\<close>

theorem no_lost_wakeup:
  assumes "run es (new_shared_termination ncpus) = Some s"
    and "t < length (pcs s)" and "pcs s ! t = Parked" and "m s = None"
  shows "\<not> done s \<and> numactive s < numcpus s \<and>
     0 < trying_to_sleep s \<and> sleeping s ! t \<noteq> 0 \<and>
     step New_job s = Some (cond_broadcast s) \<and>
     step (New_job_hint t) s = Some (cond_broadcast s) \<and>
     (0 < trying_to_sleep s \<longrightarrow> step New_job s = Some (cond_broadcast s)) \<and>
     (h < length (sleeping s) \<and> sleeping s ! h \<noteq> 0 \<longrightarrow>
        step (New_job_hint h) s = Some (cond_broadcast s)) \<and>
     pcs (cond_broadcast s) ! t = Woken \<and>
     (\<exists>s2. run [End t, End t, End t, End t, End t] (cond_broadcast s) = Some s2 \<and>
        numactive s2 = numactive s + 1 \<and> ret s2 ! t = Some False \<and> pcs s2 ! t = Active) \<and>
     (trying_to_sleep u = 0 \<longrightarrow> step New_job u = Some u) \<and>
     (h < length (sleeping u) \<and> sleeping u ! h = 0 \<longrightarrow> step (New_job_hint h) u = Some u) \<and>
     (0 < trying_to_sleep u \<and> m u \<noteq> None \<longrightarrow> step New_job u = None)"
proof -
  from run_inv [OF inv_new assms(1)] have i: "inv (unat ncpus) s" .
  then have sh: "length (sleeping s) = length (pcs s)" "length (ret s) = length (pcs s)"
    by (simp_all add: inv_def shape_ok_def)
  note pf = parked_facts [OF i assms(2,3)]
  from run_hint [OF hint_new assms(1)] have "hint_ok s" .
  note ph = parked_hint [OF this assms(2,3)]
  let ?b = "cond_broadcast s"
  have w: "pcs ?b ! t = Woken"
    using assms(2,3) by (simp add: cond_broadcast_def wake_def)
  have nj: "0 < trying_to_sleep s \<longrightarrow> step New_job s = Some ?b"
    using pf(2) assms(4) by (simp add: new_job_def new_job_locked_def)
  have njh: "h < length (sleeping s) \<and> sleeping s ! h \<noteq> 0 \<longrightarrow>
      step (New_job_hint h) s = Some ?b"
    using pf(2) assms(4) by (simp add: new_job_hint_def new_job_locked_def)
  have "run [End t, End t, End t, End t, End t] ?b =
     Some (?b\<lparr>numactive := numactive ?b + 1, trying_to_sleep := trying_to_sleep ?b - 1,
             sleeping := (sleeping ?b)[t := 0], ret := (ret ?b)[t := Some False],
             pcs := (pcs ?b)[t := Active]\<rparr>)"
    using assms(2,4) sh pf(1) w
    by (intro resume_run) (simp_all add: cond_broadcast_def)
  then have r: "\<exists>s2. run [End t, End t, End t, End t, End t] ?b = Some s2 \<and>
      numactive s2 = numactive s + 1 \<and> ret s2 ! t = Some False \<and> pcs s2 ! t = Active"
    using assms(2) sh by (simp add: cond_broadcast_def)
  have f1: "trying_to_sleep u = 0 \<longrightarrow> step New_job u = Some u"
    by (simp add: new_job_def)
  have f2: "h < length (sleeping u) \<and> sleeping u ! h = 0 \<longrightarrow> step (New_job_hint h) u = Some u"
    by (simp add: new_job_hint_def)
  have f3: "0 < trying_to_sleep u \<and> m u \<noteq> None \<longrightarrow> step New_job u = None"
    by (auto simp: new_job_def new_job_locked_def)
  have njt: "step (New_job_hint t) s = Some ?b"
    using pf(2) ph(2) assms(2,4) sh by (simp add: new_job_hint_def new_job_locked_def)
  from nj ph(1) have nj': "step New_job s = Some ?b" by simp
  from pf ph nj' njt w nj njh r f1 f2 f3 show ?thesis by blast
qed

theorem no_lost_wakeup_witness:
  "run [Begin 0, Begin 0, Begin 0, End 0] (new_shared_termination 2) =
     Some \<lparr>numactive = 1, numcpus = 2, trying_to_sleep = 1, sleeping = [1, 0],
       done = False, m = None, pcs = [Parked, Active], ret = [None, None]\<rparr> \<and>
   step New_job
     \<lparr>numactive = 1, numcpus = 2, trying_to_sleep = 1, sleeping = [1, 0],
       done = False, m = None, pcs = [Parked, Active], ret = [None, None]\<rparr> =
     Some \<lparr>numactive = 1, numcpus = 2, trying_to_sleep = 1, sleeping = [1, 0],
       done = False, m = None, pcs = [Woken, Active], ret = [None, None]\<rparr> \<and>
   step (New_job_hint 0)
     \<lparr>numactive = 1, numcpus = 2, trying_to_sleep = 1, sleeping = [1, 0],
       done = False, m = None, pcs = [Parked, Active], ret = [None, None]\<rparr> =
     Some \<lparr>numactive = 1, numcpus = 2, trying_to_sleep = 1, sleeping = [1, 0],
       done = False, m = None, pcs = [Woken, Active], ret = [None, None]\<rparr> \<and>
   (\<exists>s2. run [End 0, End 0, End 0, End 0, End 0]
       \<lparr>numactive = 1, numcpus = 2, trying_to_sleep = 1, sleeping = [1, 0],
         done = False, m = None, pcs = [Woken, Active], ret = [None, None]\<rparr> = Some s2 \<and>
      numactive s2 = 2 \<and> ret s2 ! 0 = Some False \<and> pcs s2 ! 0 = Active) \<and>
   step New_job (new_shared_termination 2) = Some (new_shared_termination 2) \<and>
   step (New_job_hint 1)
     \<lparr>numactive = 1, numcpus = 2, trying_to_sleep = 1, sleeping = [1, 0],
       done = False, m = None, pcs = [Parked, Active], ret = [None, None]\<rparr> =
     Some \<lparr>numactive = 1, numcpus = 2, trying_to_sleep = 1, sleeping = [1, 0],
       done = False, m = None, pcs = [Parked, Active], ret = [None, None]\<rparr>"
proof -
  let ?a = "\<lparr>numactive = 1, numcpus = 2, trying_to_sleep = 1, sleeping = [1, 0],
       done = False, m = None, pcs = [Parked, Active], ret = [None, None]\<rparr>"
  have r: "run [Begin 0, Begin 0, Begin 0, End 0] (new_shared_termination 2) = Some ?a"
    by code_simp
  have b: "cond_broadcast ?a = \<lparr>numactive = 1, numcpus = 2, trying_to_sleep = 1,
       sleeping = [1, 0], done = False, m = None, pcs = [Woken, Active],
       ret = [None, None]\<rparr>"
    by (simp add: cond_broadcast_def wake_def)
  have z: "trying_to_sleep (new_shared_termination 2) = 0"
    by (simp add: new_shared_termination_def)
  from no_lost_wakeup [OF r, where t = 0 and h = 0 and u = "new_shared_termination 2"]
    no_lost_wakeup [OF r, where t = 0 and h = 1 and u = ?a]
    r z
  show ?thesis unfolding b by simp
qed

end
